theory Spec2Isabelle
  imports Complex_Main "HOL-Library.Word" "HOL-Library.Log_Nat"
begin

unbundle bit_operations_syntax

section \<open>Bit-layout model\<close>

text \<open>
  The unions \<open>FP32\<close> and \<open>FP16\<close> of \<open>half_float.h\<close> overlay the raw pattern \<open>u\<close>
  with the bit-fields \<open>Mantissa\<close>, \<open>Exponent\<close> and \<open>Sign\<close> (allocated from the least
  significant bit upwards). A value of either union is modelled by its pattern \<open>u\<close>;
  a bit-field read is a function of the pattern, and a bit-field write replaces the
  bits of the field by the stored value truncated to the width of the field.
\<close>

type_synonym FP32 = "32 word"
type_synonym FP16 = "16 word"

definition Mantissa32 :: "FP32 \<Rightarrow> nat" where
  "Mantissa32 f = unat (f AND 0x7FFFFF)"

definition Exponent32 :: "FP32 \<Rightarrow> nat" where
  "Exponent32 f = unat (drop_bit 23 f AND 0xFF)"

definition Sign32 :: "FP32 \<Rightarrow> nat" where
  "Sign32 f = unat (drop_bit 31 f)"

definition set_Sign32 :: "nat \<Rightarrow> FP32 \<Rightarrow> FP32" where
  "set_Sign32 v f = (f AND 0x7FFFFFFF) OR push_bit 31 (word_of_nat v AND 1)"

definition Mantissa16 :: "FP16 \<Rightarrow> nat" where
  "Mantissa16 h = unat (h AND 0x3FF)"

definition Exponent16 :: "FP16 \<Rightarrow> nat" where
  "Exponent16 h = unat (drop_bit 10 h AND 0x1F)"

definition Sign16 :: "FP16 \<Rightarrow> nat" where
  "Sign16 h = unat (drop_bit 15 h)"

definition set_Mantissa16 :: "nat \<Rightarrow> FP16 \<Rightarrow> FP16" where
  "set_Mantissa16 v h = (h AND NOT 0x3FF) OR (word_of_nat v AND 0x3FF)"

definition set_Exponent16 :: "nat \<Rightarrow> FP16 \<Rightarrow> FP16" where
  "set_Exponent16 v h = (h AND NOT 0x7C00) OR push_bit 10 (word_of_nat v AND 0x1F)"

definition set_Sign16 :: "nat \<Rightarrow> FP16 \<Rightarrow> FP16" where
  "set_Sign16 v h = (h AND 0x7FFF) OR push_bit 15 (word_of_nat v AND 1)"

section \<open>Host single-precision arithmetic, round to nearest even\<close>

text \<open>
  The fast converters and \<open>half_to_float\<close> read and write the member \<open>f\<close> of \<open>FP32\<close>:
  they multiply, add, subtract and compare single-precision values on the host.
  These operations are modelled on patterns, following IEEE 754 binary32 with the
  default rounding (to nearest, ties to even) and gradual underflow (no flush to
  zero). A finite pattern denotes \<open>\<plusminus> mag32 x / 2 ^ 149\<close>; every finite binary32 value
  is an integer multiple of \<open>1 / 2 ^ 149\<close>. An operation that yields a NaN yields the
  default quiet NaN; the converters never apply arithmetic to a NaN or an Infinity.
\<close>

definition is_nan32 :: "FP32 \<Rightarrow> bool" where
  "is_nan32 x \<longleftrightarrow> Exponent32 x = 255 \<and> Mantissa32 x \<noteq> 0"

definition is_inf32 :: "FP32 \<Rightarrow> bool" where
  "is_inf32 x \<longleftrightarrow> Exponent32 x = 255 \<and> Mantissa32 x = 0"

definition mag32 :: "FP32 \<Rightarrow> nat" where
  "mag32 x = (if Exponent32 x = 0 then Mantissa32 x
              else (2 ^ 23 + Mantissa32 x) * 2 ^ (Exponent32 x - 1))"

definition sval32 :: "FP32 \<Rightarrow> int" where
  "sval32 x = (if Sign32 x = 1 then - int (mag32 x) else int (mag32 x))"

definition bit_length :: "nat \<Rightarrow> nat" where
  "bit_length n = floorlog 2 n"

definition rne_shift :: "nat \<Rightarrow> nat \<Rightarrow> nat" where
  "rne_shift n k =
     (let q = n div 2 ^ k; r = n mod 2 ^ k
      in if 2 * r > 2 ^ k \<or> (2 * r = 2 ^ k \<and> odd q) then q + 1 else q)"

text \<open>
  \<open>round32 n d\<close> is the pattern of the non-negative binary32 value nearest to
  \<open>n / 2 ^ d\<close> units of \<open>1 / 2 ^ 149\<close>, ties to even: the significand keeps 24 bits and
  its last place is never below one unit. The rounded significand is added to the
  exponent field, so a carry out of the significand increments the exponent, and a
  pattern at or beyond the Infinity pattern is an overflow to Infinity.
\<close>

definition round32 :: "nat \<Rightarrow> nat \<Rightarrow> FP32" where
  "round32 n d =
     (let sh = max d (bit_length n - 24);
          p = (sh - d) * 2 ^ 23 + rne_shift n sh
      in if p \<ge> 0x7F800000 then 0x7F800000 else word_of_nat p)"

definition qnan32 :: FP32 where
  "qnan32 = 0x7FC00000"

definition fp32_add :: "FP32 \<Rightarrow> FP32 \<Rightarrow> FP32" where
  "fp32_add a b =
     (if is_nan32 a \<or> is_nan32 b then qnan32
      else if is_inf32 a then (if is_inf32 b \<and> Sign32 a \<noteq> Sign32 b then qnan32 else a)
      else if is_inf32 b then b
      else let s = sval32 a + sval32 b
           in if s = 0 then (if Sign32 a = 1 \<and> Sign32 b = 1 then 0x80000000 else 0)
              else if s < 0 then 0x80000000 OR round32 (nat (- s)) 0
              else round32 (nat s) 0)"

definition fp32_sub :: "FP32 \<Rightarrow> FP32 \<Rightarrow> FP32" where
  "fp32_sub a b = fp32_add a (b XOR 0x80000000)"

definition fp32_mul :: "FP32 \<Rightarrow> FP32 \<Rightarrow> FP32" where
  "fp32_mul a b =
     (let s = (a XOR b) AND 0x80000000
      in if is_nan32 a \<or> is_nan32 b then qnan32
         else if is_inf32 a \<or> is_inf32 b
           then (if mag32 a = 0 \<or> mag32 b = 0 then qnan32 else s OR 0x7F800000)
         else s OR round32 (mag32 a * mag32 b) 149)"

definition fp32_less :: "FP32 \<Rightarrow> FP32 \<Rightarrow> bool" where
  "fp32_less a b \<longleftrightarrow> \<not> is_nan32 a \<and> \<not> is_nan32 b \<and> sval32 a < sval32 b"

text \<open>Conversion of an \<open>unsigned int\<close> to \<open>float\<close>, as in the comparison \<open>f.f < f32infty.u\<close>.\<close>

definition uint_to_fp32 :: "32 word \<Rightarrow> FP32" where
  "uint_to_fp32 x = round32 (unat x * 2 ^ 149) 0"

section \<open>Real values of patterns\<close>

definition valof32 :: "FP32 \<Rightarrow> real" where
  "valof32 x = (- 1) ^ Sign32 x * real (mag32 x) / 2 ^ 149"

definition valof16 :: "FP16 \<Rightarrow> real" where
  "valof16 h = (- 1) ^ Sign16 h *
     (if Exponent16 h = 0 then real (Mantissa16 h) / 2 ^ 24
      else real (2 ^ 10 + Mantissa16 h) * 2 ^ Exponent16 h / 2 ^ 25)"

section \<open>Float to half: the reference converters\<close>

definition float_to_half_full :: "FP32 \<Rightarrow> FP16" where
  "float_to_half_full f =
     (let r0 = 0;
          r =
            (if Exponent32 f = 0 then set_Exponent16 0 r0
             else if Exponent32 f = 255
               then set_Mantissa16 (if Mantissa32 f \<noteq> 0 then 0x200 else 0) (set_Exponent16 31 r0)
             else
               let newexp = int (Exponent32 f) - 127 + 15
               in if newexp \<ge> 31 then set_Exponent16 31 r0
                  else if newexp \<le> 0 then
                    (if 14 - newexp \<le> 24 then
                       let mant = Mantissa32 f OR 0x800000;
                           r1 = set_Mantissa16 (drop_bit (nat (14 - newexp)) mant) r0
                       in if drop_bit (nat (13 - newexp)) mant AND 1 \<noteq> 0 then r1 + 1 else r1
                     else r0)
                  else
                    let r1 = set_Mantissa16 (drop_bit 13 (Mantissa32 f))
                               (set_Exponent16 (nat newexp) r0)
                    in if Mantissa32 f AND 0x1000 \<noteq> 0 then r1 + 1 else r1)
      in set_Sign16 (Sign32 f) r)"

definition float_to_half_full_rtne :: "FP32 \<Rightarrow> FP16" where
  "float_to_half_full_rtne f =
     (let r0 = 0;
          r =
            (if Exponent32 f = 0 then set_Exponent16 0 r0
             else if Exponent32 f = 255
               then set_Mantissa16 (if Mantissa32 f \<noteq> 0 then 0x200 else 0) (set_Exponent16 31 r0)
             else
               let newexp = int (Exponent32 f) - 127 + 15
               in if newexp \<ge> 31 then set_Exponent16 31 r0
                  else if newexp \<le> 0 then
                    (if 14 - newexp \<le> 24 then
                       let mant = Mantissa32 f OR 0x800000;
                           shift = nat (14 - newexp);
                           r1 = set_Mantissa16 (drop_bit shift mant) r0;
                           lowmant = mant AND (push_bit shift 1 - 1);
                           halfway = push_bit (shift - 1) 1
                       in if lowmant \<ge> halfway
                          then (if lowmant > halfway \<or> Mantissa16 r1 AND 1 \<noteq> 0 then r1 + 1 else r1)
                          else r1
                     else r0)
                  else
                    let r1 = set_Mantissa16 (drop_bit 13 (Mantissa32 f))
                               (set_Exponent16 (nat newexp) r0)
                    in if Mantissa32 f AND 0x1000 \<noteq> 0
                       then (if Mantissa32 f AND 0x1fff > 0x1000 \<or> Mantissa16 r1 AND 1 \<noteq> 0
                             then r1 + 1 else r1)
                       else r1)
      in set_Sign16 (Sign32 f) r)"

definition float_to_half_fast :: "FP32 \<Rightarrow> FP16" where
  "float_to_half_fast f =
     (let r0 = 0;
          r =
            (if Exponent32 f = 255
               then set_Mantissa16 (if Mantissa32 f \<noteq> 0 then 0x200 else 0) (set_Exponent16 31 r0)
             else
               let newexp = int (Exponent32 f) - 127 + 15
               in if newexp \<ge> 31 then set_Exponent16 31 r0
                  else if newexp \<le> 0 then
                    (if 14 - newexp \<le> 24 then
                       let mant = Mantissa32 f OR 0x800000;
                           r1 = set_Mantissa16 (drop_bit (nat (14 - newexp)) mant) r0
                       in if drop_bit (nat (13 - newexp)) mant AND 1 \<noteq> 0 then r1 + 1 else r1
                     else r0)
                  else
                    let r1 = set_Mantissa16 (drop_bit 13 (Mantissa32 f))
                               (set_Exponent16 (nat newexp) r0)
                    in if Mantissa32 f AND 0x1000 \<noteq> 0 then r1 + 1 else r1)
      in set_Sign16 (Sign32 f) r)"

text \<open>
  The policy round-ties-to-even in the words of the specification: increment only if
  the discarded bits represent strictly more than half a unit in the last retained
  place, or exactly half and the retained mantissa is odd.
\<close>

definition rtne_increment :: "nat \<Rightarrow> nat \<Rightarrow> nat \<Rightarrow> bool" where
  "rtne_increment retained discarded half_ulp \<longleftrightarrow>
     discarded > half_ulp \<or> (discarded = half_ulp \<and> odd retained)"

section \<open>Float to half: the fast converters\<close>

definition float_to_half_fast2 :: "FP32 \<Rightarrow> FP16" where
  "float_to_half_fast2 f0 =
     (let infty = push_bit 23 31;
          magic = push_bit 23 15;
          r0 = 0;
          sign = Sign32 f0;
          f = set_Sign32 0 f0;
          r =
            (if Exponent32 f = 255
               then set_Mantissa16 (if Mantissa32 f \<noteq> 0 then 0x200 else 0) (set_Exponent16 31 r0)
             else
               let f1 = f AND NOT 0xfff;
                   f2 = fp32_mul f1 magic;
                   f3 = f2 + 0x1000;
                   f4 = (if f3 > infty then infty else f3)
               in ucast (drop_bit 13 f4))
      in set_Sign16 sign r)"

definition float_to_half_fast3 :: "FP32 \<Rightarrow> FP16" where
  "float_to_half_fast3 f0 =
     (let f32infty = push_bit 23 255;
          f16infty = push_bit 23 31;
          magic = push_bit 23 15;
          sign_mask = 0x80000000;
          round_mask = NOT 0xfff;
          sign = f0 AND sign_mask;
          f = f0 XOR sign;
          r =
            (if f \<ge> f32infty then (if f > f32infty then 0x7e00 else 0x7c00)
             else
               let f1 = f AND round_mask;
                   f2 = fp32_mul f1 magic;
                   f3 = f2 - round_mask;
                   f4 = (if f3 > f16infty then f16infty else f3)
               in ucast (drop_bit 13 f4))
      in r OR ucast (drop_bit 16 sign))"

definition float_to_half_fast3_rtne :: "FP32 \<Rightarrow> FP16" where
  "float_to_half_fast3_rtne f0 =
     (let f32infty = push_bit 23 255;
          f16max = push_bit 23 (127 + 16);
          denorm_magic = push_bit 23 ((127 - 15) + (23 - 10) + 1);
          sign_mask = 0x80000000;
          sign = f0 AND sign_mask;
          f = f0 XOR sign;
          r =
            (if f \<ge> f16max then (if f > f32infty then 0x7e00 else 0x7c00)
             else if f < push_bit 23 113 then
               let f1 = fp32_add f denorm_magic
               in ucast (f1 - denorm_magic)
             else
               let mant_odd = drop_bit 13 f AND 1;
                   f1 = f + (push_bit 23 (15 - 127) + 0xfff);
                   f2 = f1 + mant_odd
               in ucast (drop_bit 13 f2))
      in r OR ucast (drop_bit 16 sign))"

section \<open>Float to half: the approximate converter\<close>

definition approx_float_to_half :: "FP32 \<Rightarrow> FP16" where
  "approx_float_to_half f0 =
     (let f32infty = push_bit 23 255;
          f16max = push_bit 23 (127 + 16);
          magic = push_bit 23 15;
          expinf = push_bit 23 (255 XOR 31);
          sign_mask = 0x80000000;
          sign = f0 AND sign_mask;
          f = f0 XOR sign;
          (r1 :: FP16, f2) =
            (if \<not> fp32_less f (uint_to_fp32 f32infty) then (ucast (f XOR expinf), f)
             else
               let f1 = (if fp32_less f16max f then f16max else f)
               in (0, fp32_mul f1 magic));
          r2 = ucast (drop_bit 13 f2)
      in r2 OR ucast (drop_bit 16 sign))"

section \<open>Half to float\<close>

definition half_to_float :: "FP16 \<Rightarrow> FP32" where
  "half_to_float h =
     (let magic = push_bit 23 113;
          shifted_exp = push_bit 13 0x7c00;
          r1 = push_bit 13 (ucast (h AND 0x7fff));
          exp = shifted_exp AND r1;
          r2 = r1 + push_bit 23 (127 - 15);
          r3 =
            (if exp = shifted_exp then r2 + push_bit 23 (128 - 16)
             else if exp = 0 then fp32_sub (r2 + push_bit 23 1) magic
             else r2)
      in r3 OR push_bit 16 (ucast (h AND 0x8000)))"

section \<open>The dispatcher of the second header\<close>

text \<open>
  \<open>float_to_half_reference\<close> is the software path of the second header; it takes and
  returns the patterns of its \<open>float\<close> argument and its \<open>uint16_t\<close> result.
\<close>

definition float_to_half_reference :: "FP32 \<Rightarrow> FP16" where
  "float_to_half_reference f =
     (let r0 = 0;
          r =
            (if Exponent32 f = 255
               then set_Mantissa16 (if Mantissa32 f \<noteq> 0 then 0x200 else 0) (set_Exponent16 31 r0)
             else
               let newexp = int (Exponent32 f) - 127 + 15
               in if newexp \<ge> 31 then set_Exponent16 31 r0
                  else if newexp \<le> 0 then
                    (if 14 - newexp \<le> 24 then
                       let mant = Mantissa32 f OR 0x800000;
                           r1 = set_Mantissa16 (drop_bit (nat (14 - newexp)) mant) r0
                       in if drop_bit (nat (13 - newexp)) mant AND 1 \<noteq> 0 then r1 + 1 else r1
                     else r0)
                  else
                    let r1 = set_Mantissa16 (drop_bit 13 (Mantissa32 f))
                               (set_Exponent16 (nat newexp) r0)
                    in if Mantissa32 f AND 0x1000 \<noteq> 0 then r1 + 1 else r1)
      in set_Sign16 (Sign32 f) r)"

text \<open>
  \<open>float_to_half\<close> selects at build time: with \<open>__aarch64__\<close> defined it is the
  instruction \<open>fcvt\<close>, taken here as the parameter \<open>fcvt\<close>; otherwise it is
  \<open>float_to_half_reference\<close>.
\<close>

definition float_to_half :: "bool \<Rightarrow> (FP32 \<Rightarrow> FP16) \<Rightarrow> FP32 \<Rightarrow> FP16" where
  "float_to_half aarch64 fcvt x = (if aarch64 then fcvt x else float_to_half_reference x)"

section \<open>Auxiliary lemmas\<close>


subsection \<open>Bit operations as arithmetic\<close>

lemma and_not_mask_word: "(h :: 'a::len word) AND NOT (mask n) = push_bit n (drop_bit n h)"
  by (rule bit_eqI) (auto simp add: bit_simps)

lemma or_take_push_nat: "a < 2 ^ n \<Longrightarrow> (a :: nat) OR push_bit n b = a + b * 2 ^ n"
proof -
  assume a: "a < 2 ^ n"
  have "a + push_bit n b = a OR push_bit n b"
  proof (rule disjunctive_add)
    fix k
    show "\<not> bit a k \<or> \<not> bit (push_bit n b) k"
    proof (cases "k < n")
      case True then show ?thesis by (simp add: bit_simps)
    next
      case False
      then have "2 ^ n \<le> (2::nat) ^ k" by simp
      with a have "a < 2 ^ k" by linarith
      then have "\<not> bit a k" by (simp add: bit_iff_odd)
      then show ?thesis by simp
    qed
  qed
  then show ?thesis by (simp add: push_bit_eq_mult)
qed

lemma and_mask_nat: "(x :: nat) AND mask n = x mod 2 ^ n"
  by (simp add: take_bit_eq_mod flip: take_bit_eq_mask)

lemma and_exp_nat_iff: "((x :: nat) AND 2 ^ n \<noteq> 0) = odd (x div 2 ^ n)"
  by (simp add: and_exp_eq_0_iff_not_bit bit_iff_odd)

lemma mod_mod_pow2: "n \<le> k \<Longrightarrow> (v :: nat) mod 2 ^ k mod 2 ^ n = v mod 2 ^ n"
  by (simp add: mod_mod_cancel le_imp_power_dvd)

lemma unat_and_mask: "unat ((w :: 'a::len word) AND mask n) = unat w mod 2 ^ n"
  by (simp only: unsigned_take_bit_eq flip: take_bit_eq_mask) (simp add: take_bit_eq_mod)

lemma unat_of_nat_and_mask: 
  "n \<le> LENGTH('a) \<Longrightarrow> unat ((word_of_nat v :: 'a::len word) AND mask n) = v mod 2 ^ n"
  by (simp add: unat_and_mask unat_of_nat mod_mod_pow2)

lemma unat_push_bit_small:
  "unat w * 2 ^ n < 2 ^ LENGTH('a) \<Longrightarrow> unat (push_bit n (w :: 'a::len word)) = unat w * 2 ^ n"
  by (simp only: unsigned_push_bit_eq) (simp add: push_bit_eq_mult take_bit_eq_mod)

lemma unat_push_drop:
  "unat (push_bit n (drop_bit n (h::'a::len word))) = unat h div 2 ^ n * 2 ^ n"
proof -
  have "unat h div 2 ^ n * 2 ^ n \<le> unat h" by simp
  also have "unat h < 2 ^ LENGTH('a)" by simp
  finally show ?thesis
    by (simp only: unsigned_push_bit_eq unat_drop_bit_eq) (simp add: drop_bit_eq_div push_bit_eq_mult take_bit_eq_mod)
qed

lemma unat_set_Sign16: "unat (set_Sign16 v h) = unat h mod 2 ^ 15 + v mod 2 * 2 ^ 15"
proof -
  have m: "(0x7FFF :: 16 word) = mask 15" "(1 :: 16 word) = mask 1" by (simp_all add: mask_eq_exp_minus_1)
  have a: "unat ((word_of_nat v :: 16 word) AND mask 1) = v mod 2"
    using unat_of_nat_and_mask[of 1, where 'a=16] by simp
  then have "unat (push_bit 15 ((word_of_nat v :: 16 word) AND mask 1)) = push_bit 15 (v mod 2)"
    by (subst unat_push_bit_small) (simp_all add: push_bit_eq_mult)
  moreover have "unat (h AND mask 15) = unat h mod 2 ^ 15"
    by (simp add: unat_and_mask)
  ultimately have "unat (set_Sign16 v h) = unat h mod 2 ^ 15 OR push_bit 15 (v mod 2)"
    unfolding set_Sign16_def m by (simp only: unsigned_or_eq)
  then show ?thesis by (simp add: or_take_push_nat)
qed

lemma unat_set_Mantissa16:
  "unat (set_Mantissa16 v h) = v mod 2 ^ 10 + unat h div 2 ^ 10 * 2 ^ 10"
proof -
  have m: "(0x3FF :: 16 word) = mask 10" by (simp add: mask_eq_exp_minus_1)
  have "unat (set_Mantissa16 v h) = unat (push_bit 10 (drop_bit 10 h)) OR unat ((word_of_nat v :: 16 word) AND mask 10)"
    unfolding set_Mantissa16_def m and_not_mask_word by (simp only: unsigned_or_eq)
  also have "\<dots> = v mod 2 ^ 10 OR push_bit 10 (unat h div 2 ^ 10)"
    by (simp only: unat_push_drop) (simp add: unat_of_nat_and_mask push_bit_eq_mult or.commute)
  finally show ?thesis by (simp add: or_take_push_nat)
qed

lemma unat_set_Exponent16_0:
  "unat (set_Exponent16 v 0) = v mod 2 ^ 5 * 2 ^ 10"
proof -
  have m: "(0x1F :: 16 word) = mask 5" by (simp add: mask_eq_exp_minus_1)
  have a: "unat ((word_of_nat v :: 16 word) AND mask 5) = v mod 2 ^ 5"
    by (simp add: unat_of_nat_and_mask)
  have "v mod 2 ^ 5 < 2 ^ 5" by simp
  then have "v mod 2 ^ 5 * 2 ^ 10 < 2 ^ 5 * 2 ^ 10" by (simp only: mult_less_cancel2) simp
  then have "unat (push_bit 10 ((word_of_nat v :: 16 word) AND mask 5)) = v mod 2 ^ 5 * 2 ^ 10"
    by (subst unat_push_bit_small) (simp_all add: a)
  then show ?thesis unfolding set_Exponent16_def m by simp
qed


subsection \<open>Fields of a 32-bit pattern\<close>

lemma Mantissa32_eq: "Mantissa32 f = unat f mod 2 ^ 23"
proof -
  have "(0x7FFFFF :: 32 word) = mask 23" by (simp add: mask_eq_exp_minus_1)
  then show ?thesis unfolding Mantissa32_def by (simp only: unat_and_mask)
qed

lemma Exponent32_eq: "Exponent32 f = unat f div 2 ^ 23 mod 2 ^ 8"
proof -
  have "(0xFF :: 32 word) = mask 8" by (simp add: mask_eq_exp_minus_1)
  then show ?thesis unfolding Exponent32_def 
    by (simp only: unat_and_mask unat_drop_bit_eq) (simp add: drop_bit_eq_div)
qed

lemma Sign32_eq: "Sign32 f = unat f div 2 ^ 31"
  unfolding Sign32_def by (simp only: unat_drop_bit_eq) (simp add: drop_bit_eq_div)

lemma Mantissa32_less [simp]: "Mantissa32 f < 8388608"
  by (simp add: Mantissa32_eq)

lemma Exponent32_less [simp]: "Exponent32 f < 256"
  by (simp add: Exponent32_eq)

lemma Sign32_less [simp]: "Sign32 f < 2"
proof -
  have "unat f < 2 ^ 32" using unsigned_less[of f] by simp
  then show ?thesis by (simp add: Sign32_eq)
qed

lemma split3_nat:
  fixes x :: nat
  shows "x = x div 2 ^ 31 * 2 ^ 31 + x div 2 ^ 23 mod 2 ^ 8 * 2 ^ 23 + x mod 2 ^ 23"
proof -
  have a: "x = x div 2 ^ 23 * 2 ^ 23 + x mod 2 ^ 23" by simp
  have b: "x div 2 ^ 23 = x div 2 ^ 23 div 2 ^ 8 * 2 ^ 8 + x div 2 ^ 23 mod 2 ^ 8" by simp
  have c: "x div 2 ^ 23 div 2 ^ 8 = x div 2 ^ 31" by (simp add: div_mult2_eq[symmetric])
  have "x div 2 ^ 23 * 2 ^ 23 = x div 2 ^ 31 * 2 ^ 31 + x div 2 ^ 23 mod 2 ^ 8 * 2 ^ 23"
    by (subst b, subst c) (simp add: algebra_simps)
  with a show ?thesis by linarith
qed

lemma unat_fields32:
  "unat f = Sign32 f * 2 ^ 31 + Exponent32 f * 2 ^ 23 + Mantissa32 f"
  unfolding Sign32_eq Exponent32_eq Mantissa32_eq by (rule split3_nat)


subsection \<open>Rounding by a shift\<close>

lemma rne_shift_alt:
  assumes "k \<ge> 1"
  shows "rne_shift n k = n div 2 ^ k +
     (if n mod 2 ^ k > 2 ^ (k - 1) \<or> (n mod 2 ^ k = 2 ^ (k - 1) \<and> odd (n div 2 ^ k)) then 1 else 0)"
proof -
  from assms have "(2::nat) ^ k = 2 * 2 ^ (k - 1)"
    by (metis One_nat_def Suc_diff_1 less_eq_Suc_le power_Suc)
  then show ?thesis unfolding rne_shift_def Let_def by auto
qed

lemma rne_shift_13:
  "rne_shift m 13 = m div 8192 +
     (if m mod 8192 > 4096 \<or> (m mod 8192 = 4096 \<and> odd (m div 8192)) then 1 else 0)"
  using rne_shift_alt[of 13 m] by simp

lemma rne_trick_13: "(m + 4095 + (m div 8192) mod 2) div 8192 = rne_shift m 13"
proof -
  define q where "q = m div 8192"
  define r where "r = m mod 8192"
  define b where "b = q mod 2"
  have m: "m = q * 8192 + r" and r: "r < 8192" and b: "b < 2" by (simp_all add: q_def r_def b_def)
  have "(m + 4095 + b) div 8192 = q + (r + 4095 + b) div 8192"
    unfolding m by (simp add: add.assoc)
  also have "(r + 4095 + b) div 8192 = (if r + b \<ge> 4097 then 1 else 0)"
    using r b by (simp add: div_eq_0_iff) (simp add: le_div_geq)
  also have "(r + b \<ge> 4097) = (r > 4096 \<or> (r = 4096 \<and> odd q))"
    using b unfolding b_def by (cases "even q") (auto simp add: odd_iff_mod_2_eq_one)
  finally show ?thesis unfolding rne_shift_13 q_def[symmetric] r_def[symmetric] b_def[symmetric] .
qed

lemma odd_div_4096: "odd ((m::nat) div 4096) \<longleftrightarrow> m mod 8192 \<ge> 4096"
proof -
  have "(m div 2 ^ 12) mod 2 ^ 1 = m mod 2 ^ 13 div 2 ^ 12"
    by (simp only: div_exp_mod_exp_eq) simp
  moreover have "x < 8192 \<Longrightarrow> (x div 4096 = 1) = (x \<ge> 4096)" for x :: nat
    by linarith
  from this[of "m mod 8192"] have "(m mod 8192 div 4096 = 1) = (m mod 8192 \<ge> 4096)"
    by simp
  ultimately show ?thesis by (simp add: odd_iff_mod_2_eq_one)
qed


subsection \<open>The reference converter with ties to even, branch by branch\<close>

lemma unat_set_Sign16_small:
  "unat r < 2 ^ 15 \<Longrightarrow> unat (set_Sign16 (Sign32 f) r) = Sign32 f * 2 ^ 15 + unat r"
  using Sign32_less[of f] by (simp add: unat_set_Sign16)

lemma unat_pack16:
  "unat (set_Mantissa16 m (set_Exponent16 e 0)) = e mod 32 * 1024 + m mod 1024"
  by (simp add: unat_set_Mantissa16 unat_set_Exponent16_0)

lemma full_rtne_nan_inf:
  assumes "Exponent32 f = 255"
  shows "unat (float_to_half_full_rtne f) =
     Sign32 f * 2 ^ 15 + (if Mantissa32 f \<noteq> 0 then 0x7E00 else 0x7C00)"
  using assms unfolding float_to_half_full_rtne_def Let_def
  by (simp add: unat_set_Sign16_small unat_pack16)

lemma full_rtne_overflow:
  assumes "143 \<le> Exponent32 f" "Exponent32 f \<noteq> 255"
  shows "unat (float_to_half_full_rtne f) = Sign32 f * 2 ^ 15 + 0x7C00"
  using assms unfolding float_to_half_full_rtne_def Let_def
  by (simp add: unat_set_Sign16_small unat_set_Exponent16_0)

lemma full_rtne_tiny:
  assumes "Exponent32 f \<le> 101"
  shows "unat (float_to_half_full_rtne f) = Sign32 f * 2 ^ 15"
  using assms unfolding float_to_half_full_rtne_def Let_def
  by (simp add: unat_set_Sign16_small unat_set_Exponent16_0)


lemma Mantissa16_eq: "Mantissa16 h = unat h mod 2 ^ 10"
proof -
  have "(0x3FF :: 16 word) = mask 10" by (simp add: mask_eq_exp_minus_1)
  then show ?thesis unfolding Mantissa16_def by (simp only: unat_and_mask)
qed

lemma and_4096_iff: "((m::nat) AND 0x1000 \<noteq> 0) = (m mod 8192 \<ge> 4096)"
  using and_exp_nat_iff[of m 12] odd_div_4096[of m] by simp

lemma and_8191: "(m::nat) AND 0x1fff = m mod 8192"
  using and_mask_nat[of m 13] by (simp add: mask_eq_exp_minus_1)

lemma unat_Suc16: "unat r < 65535 \<Longrightarrow> unat (r + 1 :: 16 word) = unat r + 1"
  by (simp add: unat_word_ariths)

lemma full_rtne_normal:
  assumes "113 \<le> Exponent32 f" "Exponent32 f \<le> 142"
  shows "unat (float_to_half_full_rtne f) =
     Sign32 f * 2 ^ 15 + ((Exponent32 f - 112) * 2 ^ 10 + rne_shift (Mantissa32 f) 13)"
proof -
  define e where "e = Exponent32 f"
  define m where "m = Mantissa32 f"
  define r1 where "r1 = set_Mantissa16 (drop_bit 13 m) (set_Exponent16 (e - 112) 0)"
  have m: "m < 8388608" by (simp add: m_def)
  then have q: "m div 8192 < 1024" by simp
  have e: "113 \<le> e" "e \<le> 142" using assms by (simp_all add: e_def)
  have r1: "unat r1 = (e - 112) * 1024 + m div 8192"
    using e q by (simp add: r1_def unat_pack16 drop_bit_eq_div)
  then have r1_less: "unat r1 < 31744" using e q by simp
  have odd1: "(Mantissa16 r1 AND 1 \<noteq> 0) = odd (m div 8192)"
    using q by (simp add: Mantissa16_eq r1 and_one_eq odd_iff_mod_2_eq_one)
  define r where "r = (if m AND 0x1000 \<noteq> 0
       then (if m AND 0x1fff > 0x1000 \<or> Mantissa16 r1 AND 1 \<noteq> 0 then r1 + 1 else r1)
       else r1)"
  have "unat r = (e - 112) * 1024 + rne_shift m 13"
    using r1_less unfolding r_def and_4096_iff and_8191 odd1 rne_shift_13
    by (auto simp add: unat_Suc16 r1)
  moreover have "rne_shift m 13 \<le> 1024" using q unfolding rne_shift_13 by simp
  ultimately have r: "unat r = (e - 112) * 1024 + rne_shift m 13" "unat r < 2 ^ 15"
    using e by simp_all
  have "float_to_half_full_rtne f = set_Sign16 (Sign32 f) r"
    using e unfolding float_to_half_full_rtne_def Let_def r_def r1_def e_def m_def
    by (simp add: nat_diff_distrib)
  then show ?thesis using r by (simp add: unat_set_Sign16_small e_def m_def)
qed


lemma or_hidden_bit: "m < 8388608 \<Longrightarrow> (m::nat) OR 0x800000 = 8388608 + m"
  using or_take_push_nat[of m 23 1] by (simp add: push_bit_eq_mult)

lemma and_low_mask: "(x::nat) AND (push_bit k 1 - 1) = x mod 2 ^ k"
  using and_mask_nat[of x k] by (simp add: mask_eq_exp_minus_1 push_bit_eq_mult)

lemma full_rtne_subnormal:
  assumes "102 \<le> Exponent32 f" "Exponent32 f \<le> 112"
  shows "unat (float_to_half_full_rtne f) =
     Sign32 f * 2 ^ 15 + rne_shift (8388608 + Mantissa32 f) (126 - Exponent32 f)"
proof -
  define e where "e = Exponent32 f"
  define m where "m = Mantissa32 f"
  define k where "k = 126 - e"
  define mant where "mant = 8388608 + m"
  define r1 where "r1 = set_Mantissa16 (drop_bit k mant) 0"
  have m: "m < 8388608" by (simp add: m_def)
  have e: "102 \<le> e" "e \<le> 112" using assms by (simp_all add: e_def)
  then have k: "14 \<le> k" "k \<le> 24" "1 \<le> k" by (simp_all add: k_def)
  have "mant < 1024 * 2 ^ 14" using m by (simp add: mant_def)
  also have "(2::nat) ^ 14 \<le> 2 ^ k" using k by (simp only: power_increasing_iff) 
  finally have q: "mant div 2 ^ k < 1024" by (simp add: less_mult_imp_div_less)
  have r1: "unat r1 = mant div 2 ^ k"
    using q by (simp add: r1_def unat_set_Mantissa16 drop_bit_eq_div)
  have odd1: "(Mantissa16 r1 AND 1 \<noteq> 0) = odd (mant div 2 ^ k)"
    using q by (simp add: Mantissa16_eq r1 and_one_eq odd_iff_mod_2_eq_one)
  define lowmant where "lowmant = mant AND (push_bit k 1 - 1)"
  define halfway where "halfway = (push_bit (k - 1) 1 :: nat)"
  have low: "lowmant = mant mod 2 ^ k" by (simp only: lowmant_def and_low_mask)
  have half: "halfway = 2 ^ (k - 1)" by (simp add: halfway_def push_bit_eq_mult)
  define r where "r = (if lowmant \<ge> halfway
       then (if lowmant > halfway \<or> Mantissa16 r1 AND 1 \<noteq> 0 then r1 + 1 else r1)
       else r1)"
  have "unat r = rne_shift mant k"
    using q unfolding r_def low half odd1 rne_shift_alt[OF k(3)]
    by (auto simp add: unat_Suc16 r1)
  moreover have "rne_shift mant k \<le> 1024" using q unfolding rne_shift_alt[OF k(3)] by simp
  ultimately have r: "unat r = rne_shift mant k" "unat r < 2 ^ 15"
    by simp_all
  have "nat (126 - int e) = k" using e by (simp add: k_def)
  then have "float_to_half_full_rtne f = set_Sign16 (Sign32 f) r"
    using e m unfolding float_to_half_full_rtne_def Let_def r_def r1_def lowmant_def halfway_def mant_def
      e_def[symmetric] m_def[symmetric]
    by (simp add: or_hidden_bit)
  then show ?thesis using r by (simp add: unat_set_Sign16_small e_def m_def k_def mant_def)
qed


subsection \<open>The sign mask\<close>

lemma bit_int_sign_mask [simp]: "bit (0x80000000 :: int) n \<longleftrightarrow> n = 31"
proof -
  have "(0x80000000 :: int) = 2 ^ 31" by simp
  then show ?thesis by (simp only: bit_exp_iff) auto
qed

lemma bit_int_sign_mask16 [simp]: "bit (0x8000 :: int) n \<longleftrightarrow> n = 15"
proof -
  have "(0x8000 :: int) = 2 ^ 15" by simp
  then show ?thesis by (simp only: bit_exp_iff) auto
qed

lemma nat_eq_31: "n < 32 \<Longrightarrow> 31 \<le> n \<Longrightarrow> n = (31::nat)"
  and nat_eq_15: "k < 16 \<Longrightarrow> 15 \<le> k \<Longrightarrow> k = (15::nat)"
  by simp_all

lemma strip_sign_eq: "f XOR (f AND 0x80000000) = take_bit 31 (f :: 32 word)"
  by (rule bit_eqI) (auto simp add: bit_simps)

lemma sign_bits_eq: "(f :: 32 word) AND 0x80000000 = push_bit 31 (drop_bit 31 f)"
  by (rule bit_eqI) (auto simp add: bit_simps dest: nat_eq_31)

lemma sign_half_eq: "(ucast (drop_bit 16 (f AND 0x80000000)) :: 16 word) = push_bit 15 (ucast (drop_bit 31 (f :: 32 word)))"
  by (rule bit_eqI) (auto simp add: bit_simps dest: nat_eq_15)


lemma fields32_less: "Exponent32 f * 8388608 + Mantissa32 f < 2147483648"
  using Exponent32_less[of f] Mantissa32_less[of f] by linarith

lemma unat_strip_sign:
  "unat (f XOR (f AND 0x80000000)) = Exponent32 f * 2 ^ 23 + Mantissa32 f"
proof -
  have "unat (f XOR (f AND 0x80000000)) = unat f mod 2 ^ 31"
    by (simp only: strip_sign_eq unsigned_take_bit_eq) (simp only: take_bit_eq_mod)
  also have "unat f = Sign32 f * 2 ^ 31 + (Exponent32 f * 2 ^ 23 + Mantissa32 f)"
    by (simp add: unat_fields32)
  also have "Exponent32 f * 2 ^ 23 + Mantissa32 f < 2 ^ 31"
    using fields32_less[of f] by simp
  then have "(Sign32 f * 2 ^ 31 + (Exponent32 f * 2 ^ 23 + Mantissa32 f)) mod 2 ^ 31
      = Exponent32 f * 2 ^ 23 + Mantissa32 f"
    by simp
  finally show ?thesis .
qed

lemma unat_sign_half:
  "unat (ucast (drop_bit 16 ((f :: 32 word) AND 0x80000000)) :: 16 word) = Sign32 f * 2 ^ 15"
proof -
  have "unat (ucast (drop_bit 31 f) :: 16 word) = Sign32 f"
    using Sign32_less[of f] unfolding Sign32_def
    by (simp only: unsigned_ucast_eq) (simp add: take_bit_eq_mod)
  then show ?thesis using Sign32_less[of f]
    by (simp only: sign_half_eq) (simp add: unat_push_bit_small)
qed

lemma unat_or_sign_half:
  assumes "unat r < 2 ^ 15"
  shows "unat (r OR ucast (drop_bit 16 ((f :: 32 word) AND 0x80000000)) :: 16 word)
      = Sign32 f * 2 ^ 15 + unat r"
proof -
  have "unat r OR push_bit 15 (Sign32 f) = unat r + Sign32 f * 2 ^ 15"
    using assms by (rule or_take_push_nat)
  then show ?thesis by (simp only: unsigned_or_eq unat_sign_half) (simp add: push_bit_eq_mult)
qed

lemma Exponent32_strip: "Exponent32 (f XOR (f AND 0x80000000)) = Exponent32 f"
  and Mantissa32_strip: "Mantissa32 (f XOR (f AND 0x80000000)) = Mantissa32 f"
  and Sign32_strip: "Sign32 (f XOR (f AND 0x80000000)) = 0"
  using Mantissa32_less[of f] fields32_less[of f]
  by (simp_all add: Exponent32_eq[of "f XOR _"] Mantissa32_eq[of "f XOR _"] Sign32_eq[of "f XOR _"] unat_strip_sign)


subsection \<open>The fast converter with ties to even, branch by branch\<close>

lemma fast3_rtne_unfold:
  assumes "sign = f0 AND 0x80000000" and "x = f0 XOR sign"
    and "c = push_bit 23 (15 - 127) + 0xfff"
  shows "float_to_half_fast3_rtne f0 =
     (if x \<ge> 1199570944 then (if x > 2139095040 then 0x7e00 else 0x7c00)
      else if x < 947912704 then ucast (fp32_add x 1056964608 - 1056964608)
      else ucast (drop_bit 13 (x + c + (drop_bit 13 x AND 1))))
     OR ucast (drop_bit 16 sign)"
  unfolding float_to_half_fast3_rtne_def Let_def assms(1)[symmetric] assms(2)[symmetric] assms(3)[symmetric]
  by simp

lemma unat_fast3_rtne:
  fixes r :: "16 word"
  assumes "x = f XOR (f AND 0x80000000)"
    and "c = push_bit 23 (15 - 127) + 0xfff"
    and "r = (if x \<ge> 1199570944 then (if x > 2139095040 then 0x7e00 else 0x7c00)
      else if x < 947912704 then ucast (fp32_add x 1056964608 - 1056964608)
      else ucast (drop_bit 13 (x + c + (drop_bit 13 x AND 1))))"
    and "unat r < 2 ^ 15"
  shows "unat (float_to_half_fast3_rtne f) = Sign32 f * 2 ^ 15 + unat r"
  using assms(4) unfolding fast3_rtne_unfold[OF refl assms(1) assms(2)] assms(3)[symmetric]
  by (rule unat_or_sign_half)

lemma fast3_rtne_nan_inf:
  assumes "Exponent32 f = 255"
  shows "unat (float_to_half_fast3_rtne f) =
     Sign32 f * 2 ^ 15 + (if Mantissa32 f \<noteq> 0 then 0x7E00 else 0x7C00)"
  by (subst unat_fast3_rtne[OF refl refl refl])
     (simp_all add: assms word_le_nat_alt word_less_nat_alt unat_strip_sign)

lemma fast3_rtne_overflow:
  assumes "143 \<le> Exponent32 f" "Exponent32 f \<noteq> 255"
  shows "unat (float_to_half_fast3_rtne f) = Sign32 f * 2 ^ 15 + 0x7C00"
proof -
  have "Exponent32 f \<le> 254" using assms Exponent32_less[of f] by linarith
  then have "Exponent32 f * 8388608 + Mantissa32 f < 2139095040" 
    using Mantissa32_less[of f] by linarith
  then show ?thesis
    by (subst unat_fast3_rtne[OF refl refl refl])
       (use assms in \<open>simp_all add: word_le_nat_alt word_less_nat_alt unat_strip_sign\<close>)
qed


lemma wrap_add32: "y < 4294967296 \<Longrightarrow> (4294967296 + y) mod 4294967296 = (y::nat)"
  by simp

lemma rne_shift_13_le: "m < 8388608 \<Longrightarrow> rne_shift m 13 \<le> 1024"
proof -
  assume "m < 8388608"
  then have "m div 8192 < 1024" by simp
  then show ?thesis unfolding rne_shift_13 by simp
qed

lemma fast3_rtne_normal:
  assumes "113 \<le> Exponent32 f" "Exponent32 f \<le> 142"
  shows "unat (float_to_half_fast3_rtne f) =
     Sign32 f * 2 ^ 15 + ((Exponent32 f - 112) * 2 ^ 10 + rne_shift (Mantissa32 f) 13)"
proof -
  define e where "e = Exponent32 f"
  define m where "m = Mantissa32 f"
  define x where "x = f XOR (f AND 0x80000000)"
  define c :: "32 word" where "c = push_bit 23 (15 - 127) + 0xfff"
  define d where "d = e - 112"
  define b where "b = (m div 8192) mod 2"
  define y where "y = x + c + (drop_bit 13 x AND 1)"
  have m: "m < 8388608" by (simp add: m_def)
  have e: "113 \<le> e" "e \<le> 142" using assms by (simp_all add: e_def)
  have d: "e = 112 + d" "1 \<le> d" "d \<le> 30" using e by (simp_all add: d_def)
  have x: "unat x = e * 8388608 + m" by (simp add: x_def unat_strip_sign e_def m_def)
  have c: "unat c = 3355447295" by (simp add: c_def)
  have b: "b < 2" by (simp add: b_def)
  have odd: "unat (drop_bit 13 x AND 1) = b"
  proof -
    have "unat (drop_bit 13 x AND 1) = unat (drop_bit 13 x AND mask 1)" by simp
    also have "\<dots> = (unat x div 8192) mod 2"
      by (simp only: unat_and_mask unat_drop_bit_eq) (simp add: drop_bit_eq_div)
    also have "unat x div 8192 = e * 1024 + m div 8192" unfolding x by simp
    also have "e * 1024 + m div 8192 = 2 * (e * 512) + m div 8192" by linarith
    also have "(2 * (e * 512) + m div 8192) mod 2 = b" unfolding b_def by (simp only: mod_mult_self4)
    finally show ?thesis .
  qed
  have "unat (x + c) = (unat x + unat c) mod 4294967296"
    by (simp add: unat_word_ariths)
  also have "unat x + unat c = 4294967296 + (d * 8388608 + m + 4095)"
    unfolding x c d by simp
  also have "(4294967296 + (d * 8388608 + m + 4095)) mod 4294967296 = d * 8388608 + m + 4095"
  proof (rule wrap_add32)
    show "d * 8388608 + m + 4095 < 4294967296" using d m by linarith
  qed
  finally have f1: "unat (x + c) = d * 8388608 + m + 4095" .
  have "unat y = (unat (x + c) + unat (drop_bit 13 x AND 1)) mod 4294967296"
    unfolding y_def by (simp add: unat_word_ariths)
  moreover have "d * 8388608 + m + 4095 + b < 4294967296" using d m b by linarith
  ultimately have y: "unat y = d * 8388608 + (m + 4095 + b)"
    unfolding f1 odd by simp
  have "unat (ucast (drop_bit 13 y) :: 16 word) = ((d * 8388608 + (m + 4095 + b)) div 8192) mod 65536"
    by (simp only: unsigned_ucast_eq unat_drop_bit_eq y) (simp add: take_bit_eq_mod drop_bit_eq_div)
  also have "(d * 8388608 + (m + 4095 + b)) div 8192 = d * 1024 + rne_shift m 13"
    using rne_trick_13[of m] by (simp add: b_def)
  also have le: "rne_shift m 13 \<le> 1024" using m by (rule rne_shift_13_le)
  then have "(d * 1024 + rne_shift m 13) mod 65536 = d * 1024 + rne_shift m 13"
    using d by simp
  finally have r: "unat (ucast (drop_bit 13 y) :: 16 word) = d * 1024 + rne_shift m 13" .
  define r :: "16 word" where "r = (if x \<ge> 1199570944 then (if x > 2139095040 then 0x7e00 else 0x7c00)
      else if x < 947912704 then ucast (fp32_add x 1056964608 - 1056964608)
      else ucast (drop_bit 13 (x + c + (drop_bit 13 x AND 1))))"
  have "r = ucast (drop_bit 13 y)"
    using e m unfolding r_def y_def by (simp add: word_le_nat_alt word_less_nat_alt x)
  then have r': "unat r = d * 1024 + rne_shift m 13" using r by simp
  then have "unat r < 2 ^ 15" using le d by simp
  from unat_fast3_rtne[OF x_def c_def r_def this]
  show ?thesis unfolding r' by (simp add: e_def[symmetric] m_def[symmetric] d)
qed


subsection \<open>Bit length and scaling of the rounding\<close>

lemma bit_length_eqI: "2 ^ k \<le> n \<Longrightarrow> n < 2 ^ (k + 1) \<Longrightarrow> bit_length n = k + 1"
proof -
  assume a: "2 ^ k \<le> n" "n < 2 ^ (k + 1)"
  have "Suc k \<le> floorlog 2 n" using a(1) by (intro floorlog_ge_SucI) simp_all
  moreover have "floorlog 2 n \<le> k + 1" using a(2) by (simp add: floorlog_le_iff)
  ultimately show ?thesis by (simp add: bit_length_def)
qed

lemma bit_length_0 [simp]: "bit_length 0 = 0"
  by (simp add: bit_length_def floorlog_def)

lemma rne_shift_scale: "rne_shift (a * 2 ^ j) (k + j) = rne_shift a k"
proof -
  have q: "a * 2 ^ j div 2 ^ (k + j) = a div 2 ^ k"
    by (simp add: power_add)
  have r: "a * 2 ^ j mod 2 ^ (k + j) = (a mod 2 ^ k) * 2 ^ j"
    by (simp add: power_add mult_mod_left mult.commute)
  have p: "(2::nat) ^ (k + j) = 2 ^ k * 2 ^ j" by (simp add: power_add)
  have c1: "(2 * (a mod 2 ^ k * 2 ^ j) > 2 ^ k * 2 ^ j) = (2 * (a mod 2 ^ k) > 2 ^ k)"
    using mult_less_cancel2[of "2 ^ k" "2 ^ j" "2 * (a mod 2 ^ k)"] by (simp add: mult.assoc)
  have c2: "(2 * (a mod 2 ^ k * 2 ^ j) = 2 ^ k * 2 ^ j) = (2 * (a mod 2 ^ k) = 2 ^ k)"
    using mult_cancel2[of "2 * (a mod 2 ^ k)" "2 ^ j" "2 ^ k"] by (simp add: mult.assoc)
  show ?thesis unfolding rne_shift_def Let_def q r unfolding p c1 c2 ..
qed

lemma rne_shift_small: "2 * n < 2 ^ k \<Longrightarrow> rne_shift n k = 0"
  unfolding rne_shift_def Let_def by simp

lemma rne_shift_add_even:
  assumes "even b"
  shows "rne_shift (b * 2 ^ k + a) k = b + rne_shift a k"
proof -
  have q: "(b * 2 ^ k + a) div 2 ^ k = b + a div 2 ^ k" by simp
  have r: "(b * 2 ^ k + a) mod 2 ^ k = a mod 2 ^ k" by simp
  show ?thesis unfolding rne_shift_def Let_def q r using assms by simp
qed

lemma rne_shift_le:
  assumes "n \<le> c * 2 ^ k"
  shows "rne_shift n k \<le> c"
proof (cases "n = c * 2 ^ k")
  case True
  then show ?thesis unfolding rne_shift_def Let_def by simp
next
  case False
  with assms have "n < c * 2 ^ k" by simp
  then have "n div 2 ^ k < c" by (simp add: less_mult_imp_div_less)
  then show ?thesis unfolding rne_shift_def Let_def by simp
qed


subsection \<open>The float addition of the subnormal branch\<close>

lemma mag32_small:
  assumes "Exponent32 x \<le> 112"
  shows "mag32 x < 2 ^ 135"
proof (cases "Exponent32 x = 0")
  case True
  have "Mantissa32 x < 2 ^ 23" by simp
  also have "(2::nat) ^ 23 < 2 ^ 135" by simp
  finally show ?thesis using True by (simp add: mag32_def)
next
  case False
  have "2 ^ 23 + Mantissa32 x < (2::nat) ^ 24" using Mantissa32_less[of x] by simp
  moreover have "(2::nat) ^ (Exponent32 x - 1) \<le> 2 ^ 111"
    using assms by (intro power_increasing) simp_all
  ultimately have "(2 ^ 23 + Mantissa32 x) * 2 ^ (Exponent32 x - 1) < 2 ^ 24 * (2::nat) ^ 111"
    by (intro mult_less_le_imp_less) simp_all
  also have "2 ^ 24 * (2::nat) ^ 111 = 2 ^ 135" by (simp only: power_add[symmetric]) simp
  finally show ?thesis using False by (simp add: mag32_def)
qed

lemma round32_half_plus:
  assumes "a < 2 ^ 135"
  shows "round32 (2 ^ 148 + a) 0 = word_of_nat (1056964608 + rne_shift a 125)"
    and "rne_shift a 125 \<le> 1024"
proof -
  have "(2::nat) ^ 135 \<le> 2 ^ 148" by simp
  with assms have a: "a < 2 ^ 148" by linarith
  then have "2 ^ 148 + a < (2::nat) ^ 148 + 2 ^ 148" by simp
  then have "2 ^ 148 + a < (2::nat) ^ (148 + 1)" by simp
  then have bl: "bit_length (2 ^ 148 + a) = 148 + 1"
    by (intro bit_length_eqI) simp_all
  have "(2::nat) ^ 148 = 2 ^ 23 * 2 ^ 125" by (simp only: power_add[symmetric]) simp
  then have "rne_shift (2 ^ 148 + a) 125 = 2 ^ 23 + rne_shift a 125"
    using rne_shift_add_even[of "2 ^ 23" 125 a] by simp
  moreover have "a \<le> 1024 * 2 ^ 125"
  proof -
    have "(2::nat) ^ 135 = 2 ^ 10 * 2 ^ 125" by (simp only: power_add[symmetric]) simp
    with assms show ?thesis by simp
  qed
  then show le: "rne_shift a 125 \<le> 1024" by (rule rne_shift_le)
  ultimately show "round32 (2 ^ 148 + a) 0 = word_of_nat (1056964608 + rne_shift a 125)"
    unfolding round32_def bl Let_def by simp
qed


lemma denorm_magic_fields:
  "Exponent32 1056964608 = 126" "Mantissa32 1056964608 = 0" "Sign32 1056964608 = 0"
  by (simp_all add: Exponent32_def Mantissa32_def Sign32_def)

lemma fp32_add_half:
  assumes "Sign32 x = 0" "Exponent32 x \<le> 112"
  shows "fp32_add x 1056964608 = word_of_nat (1056964608 + rne_shift (mag32 x) 125)"
proof -
  have fin: "\<not> is_nan32 x" "\<not> is_inf32 x" "\<not> is_nan32 1056964608" "\<not> is_inf32 1056964608"
    using assms by (simp_all add: is_nan32_def is_inf32_def denorm_magic_fields)
  have "mag32 1056964608 = 2 ^ 23 * 2 ^ 125" by (simp add: mag32_def denorm_magic_fields)
  also have "\<dots> = (2::nat) ^ 148" by (simp only: power_add[symmetric]) simp
  finally have sm: "sval32 1056964608 = int (2 ^ 148)" 
    unfolding sval32_def denorm_magic_fields by simp
  have sx: "sval32 x = int (mag32 x)" using assms by (simp add: sval32_def)
  have s: "sval32 x + sval32 1056964608 = int (2 ^ 148 + mag32 x)"
    unfolding sx sm by simp
  have pos: "0 < 2 ^ 148 + mag32 x" by simp
  have "fp32_add x 1056964608 = round32 (2 ^ 148 + mag32 x) 0"
    unfolding fp32_add_def Let_def s using fin pos by (simp only: nat_int if_False of_nat_0_less_iff of_nat_eq_0_iff of_nat_less_0_iff) simp
  also have "\<dots> = word_of_nat (1056964608 + rne_shift (mag32 x) 125)"
    using assms(2) by (intro round32_half_plus mag32_small)
  finally show ?thesis .
qed

lemma mag32_strip: "mag32 (f XOR (f AND 0x80000000)) = mag32 f"
  unfolding mag32_def Exponent32_strip Mantissa32_strip ..

lemma fast3_rtne_small:
  assumes "Exponent32 f \<le> 112"
  shows "unat (float_to_half_fast3_rtne f) = Sign32 f * 2 ^ 15 + rne_shift (mag32 f) 125"
proof -
  define x where "x = f XOR (f AND 0x80000000)"
  define c :: "32 word" where "c = push_bit 23 (15 - 127) + 0xfff"
  define t where "t = rne_shift (mag32 f) 125"
  have t: "t \<le> 1024" unfolding t_def using assms by (intro round32_half_plus(2) mag32_small)
  have x: "unat x = Exponent32 f * 8388608 + Mantissa32 f" by (simp add: x_def unat_strip_sign)
  have xs: "Sign32 x = 0" "Exponent32 x \<le> 112" "mag32 x = mag32 f"
    using assms by (simp_all add: x_def Sign32_strip Exponent32_strip mag32_strip)
  have "fp32_add x 1056964608 - 1056964608 = word_of_nat t"
    unfolding fp32_add_half[OF xs(1,2)] xs(3) t_def by simp
  moreover have "unat (ucast (word_of_nat t :: 32 word) :: 16 word) = t"
    using t by (simp only: unsigned_ucast_eq unat_of_nat) (simp add: take_bit_eq_mod)
  ultimately have u: "unat (ucast (fp32_add x 1056964608 - 1056964608) :: 16 word) = t" by simp
  define r :: "16 word" where "r = (if x \<ge> 1199570944 then (if x > 2139095040 then 0x7e00 else 0x7c00)
      else if x < 947912704 then ucast (fp32_add x 1056964608 - 1056964608)
      else ucast (drop_bit 13 (x + c + (drop_bit 13 x AND 1))))"
  have "Exponent32 f * 8388608 + Mantissa32 f < 947912704"
    using assms Mantissa32_less[of f] by linarith
  then have "r = ucast (fp32_add x 1056964608 - 1056964608)"
    unfolding r_def by (simp add: word_le_nat_alt word_less_nat_alt x)
  then have r': "unat r = t" using u by simp
  then have "unat r < 2 ^ 15" using t by simp
  from unat_fast3_rtne[OF x_def c_def r_def this]
  show ?thesis unfolding r' t_def .
qed

lemma fast3_rtne_subnormal:
  assumes "102 \<le> Exponent32 f" "Exponent32 f \<le> 112"
  shows "unat (float_to_half_fast3_rtne f) =
     Sign32 f * 2 ^ 15 + rne_shift (8388608 + Mantissa32 f) (126 - Exponent32 f)"
proof -
  have "126 - Exponent32 f + (Exponent32 f - 1) = 125" using assms by simp
  then have "rne_shift ((8388608 + Mantissa32 f) * 2 ^ (Exponent32 f - 1)) 125
      = rne_shift (8388608 + Mantissa32 f) (126 - Exponent32 f)"
    using rne_shift_scale[of "8388608 + Mantissa32 f" "Exponent32 f - 1" "126 - Exponent32 f"] by simp
  then show ?thesis using assms by (simp add: fast3_rtne_small mag32_def)
qed

lemma fast3_rtne_tiny:
  assumes "Exponent32 f \<le> 101"
  shows "unat (float_to_half_fast3_rtne f) = Sign32 f * 2 ^ 15"
proof -
  have "2 * mag32 f < 2 ^ 125"
  proof (cases "Exponent32 f = 0")
    case True
    have "2 * Mantissa32 f < 2 ^ 24" using Mantissa32_less[of f] by simp
    also have "(2::nat) ^ 24 < 2 ^ 125" by simp
    finally show ?thesis using True by (simp add: mag32_def)
  next
    case False
    have "2 ^ 23 + Mantissa32 f < (2::nat) ^ 24" using Mantissa32_less[of f] by simp
    moreover have "(2::nat) ^ (Exponent32 f - 1) \<le> 2 ^ 100"
      using assms by (intro power_increasing) simp_all
    ultimately have "(2 ^ 23 + Mantissa32 f) * 2 ^ (Exponent32 f - 1) < 2 ^ 24 * (2::nat) ^ 100"
      by (intro mult_less_le_imp_less) simp_all
    also have "2 ^ 24 * (2::nat) ^ 100 = 2 ^ 124" by (simp only: power_add[symmetric]) simp
    finally have "2 * ((2 ^ 23 + Mantissa32 f) * 2 ^ (Exponent32 f - 1)) < 2 * (2::nat) ^ 124"
      by (simp add: mult.commute)
    then show ?thesis using False by (simp add: mag32_def)
  qed
  then have "rne_shift (mag32 f) 125 = 0" by (rule rne_shift_small)
  then show ?thesis using assms by (simp add: fast3_rtne_small)
qed


subsection \<open>The approximate converter on Infinities and NaNs\<close>

lemmas field_defs = Mantissa32_def Exponent32_def Sign32_def Mantissa16_def Exponent16_def Sign16_def
  set_Mantissa16_def set_Exponent16_def set_Sign16_def set_Sign32_def

lemma uint_to_fp32_infty: "uint_to_fp32 2139095040 = 0x4EFF0000"
  by (simp add: uint_to_fp32_def round32_def rne_shift_def bit_length_def compute_floorlog Let_def)

lemma approx_unfold:
  assumes "sign = f0 AND 0x80000000" and "x = f0 XOR sign"
  shows "approx_float_to_half f0 =
     ucast (drop_bit 13 (if \<not> fp32_less x 0x4EFF0000 then x
        else fp32_mul (if fp32_less 1199570944 x then 1199570944 else x) 125829120))
     OR ucast (drop_bit 16 sign)"
  unfolding approx_float_to_half_def Let_def assms(1)[symmetric] assms(2)[symmetric]
  by (simp add: uint_to_fp32_infty split: prod.splits)

lemma not_less_infty:
  assumes "Exponent32 x = 255" "Sign32 x = 0"
  shows "\<not> fp32_less x 0x4EFF0000"
proof (cases "Mantissa32 x = 0")
  case True
  have "sval32 0x4EFF0000 < sval32 x"
    using assms True by (simp add: sval32_def mag32_def field_defs)
  then show ?thesis by (simp add: fp32_less_def)
next
  case False
  then show ?thesis using assms by (simp add: fp32_less_def is_nan32_def)
qed

lemma approx_nan_inf:
  assumes "Exponent32 f = 255"
  shows "approx_float_to_half f =
     ucast (drop_bit 13 (f XOR (f AND 0x80000000))) OR ucast (drop_bit 16 (f AND 0x80000000))"
  using not_less_infty[of "f XOR (f AND 0x80000000)"] assms
  by (simp only: approx_unfold[OF refl refl] Exponent32_strip Sign32_strip) simp


subsection \<open>Fields of a 16-bit pattern and quiet NaNs\<close>

lemma Exponent16_eq: "Exponent16 h = unat h div 2 ^ 10 mod 2 ^ 5"
proof -
  have "(0x1F :: 16 word) = mask 5" by (simp add: mask_eq_exp_minus_1)
  then show ?thesis unfolding Exponent16_def 
    by (simp only: unat_and_mask unat_drop_bit_eq) (simp add: drop_bit_eq_div)
qed

lemma Sign16_eq: "Sign16 h = unat h div 2 ^ 15"
  unfolding Sign16_def by (simp only: unat_drop_bit_eq) (simp add: drop_bit_eq_div)

lemma fields16_of_unat:
  assumes "unat h = s * 2 ^ 15 + (e * 2 ^ 10 + m)" "e < 32" "m < 1024"
  shows "Sign16 h = s" "Exponent16 h = e" "Mantissa16 h = m"
proof -
  have a: "e * 1024 + m < 32768" using assms(2,3) by linarith
  have "unat h = s * 32768 + (e * 1024 + m)" using assms(1) by simp
  then show "Sign16 h = s" using a by (simp add: Sign16_eq)
  have "unat h div 1024 = s * 32 + e" using assms by simp
  then show "Exponent16 h = e" using assms(2) by (simp add: Exponent16_eq)
  have u: "unat h = (s * 32 + e) * 1024 + m" using assms(1) by simp
  have "((s * 32 + e) * 1024 + m) mod 1024 = m"
    using assms(3) by (simp only: mod_mult_self3) simp
  moreover have "Mantissa16 h = unat h mod 1024" by (simp add: Mantissa16_eq)
  ultimately show "Mantissa16 h = m" by (simp only: u)
qed

lemma full_nan_inf:
  assumes "Exponent32 f = 255"
  shows "unat (float_to_half_full f) =
     Sign32 f * 2 ^ 15 + (if Mantissa32 f \<noteq> 0 then 0x7E00 else 0x7C00)"
  using assms unfolding float_to_half_full_def Let_def
  by (simp add: unat_set_Sign16_small unat_pack16)

lemma fast3_unfold:
  assumes "sign = f0 AND 0x80000000" and "x = f0 XOR sign"
  shows "float_to_half_fast3 f0 =
     (if x \<ge> 2139095040 then (if x > 2139095040 then 0x7e00 else 0x7c00)
      else ucast (drop_bit 13 (let y = fp32_mul (x AND NOT 0xfff) 125829120 - NOT 0xfff
                               in if y > 260046848 then 260046848 else y)))
     OR ucast (drop_bit 16 sign)"
  unfolding float_to_half_fast3_def Let_def assms(1)[symmetric] assms(2)[symmetric]
  by simp

lemma fast3_nan_inf:
  assumes "Exponent32 f = 255"
  shows "unat (float_to_half_fast3 f) =
     Sign32 f * 2 ^ 15 + (if Mantissa32 f \<noteq> 0 then 0x7E00 else 0x7C00)"
proof -
  define x where "x = f XOR (f AND 0x80000000)"
  define r :: "16 word" where "r = (if Mantissa32 f \<noteq> 0 then 0x7e00 else 0x7c00)"
  have x: "unat x = 255 * 8388608 + Mantissa32 f" by (simp add: x_def unat_strip_sign assms)
  have "float_to_half_fast3 f = r OR ucast (drop_bit 16 (f AND 0x80000000))"
    unfolding fast3_unfold[OF refl x_def] r_def
    by (simp add: word_le_nat_alt word_less_nat_alt x)
  moreover have "unat r < 2 ^ 15" by (simp add: r_def)
  ultimately show ?thesis by (simp only: unat_or_sign_half) (simp add: r_def)
qed

lemma quiet_fields:
  assumes "unat h = s * 2 ^ 15 + (if m \<noteq> 0 then 0x7E00 else 0x7C00)"
  shows "Exponent16 h = 31 \<and> Mantissa16 h = (if m = (0::nat) then 0 else 0x200) \<and> Sign16 h = s"
proof (cases "m = 0")
  case True
  then have "unat h = s * 2 ^ 15 + (31 * 2 ^ 10 + 0)" using assms by simp
  from fields16_of_unat[OF this] True show ?thesis by simp
next
  case False
  then have "unat h = s * 2 ^ 15 + (31 * 2 ^ 10 + 512)" using assms by simp
  from fields16_of_unat[OF this] False show ?thesis by simp
qed


subsection \<open>The stages of the widening converter\<close>

lemma split3_nat16:
  fixes x :: nat
  shows "x = x div 2 ^ 15 * 2 ^ 15 + x div 2 ^ 10 mod 2 ^ 5 * 2 ^ 10 + x mod 2 ^ 10"
proof -
  have a: "x = x div 2 ^ 10 * 2 ^ 10 + x mod 2 ^ 10" by simp
  have b: "x div 2 ^ 10 = x div 2 ^ 10 div 2 ^ 5 * 2 ^ 5 + x div 2 ^ 10 mod 2 ^ 5" by simp
  have c: "x div 2 ^ 10 div 2 ^ 5 = x div 2 ^ 15" by (simp add: div_mult2_eq[symmetric])
  have "x div 2 ^ 10 * 2 ^ 10 = x div 2 ^ 15 * 2 ^ 15 + x div 2 ^ 10 mod 2 ^ 5 * 2 ^ 10"
    by (subst b, subst c) (simp add: algebra_simps)
  with a show ?thesis by linarith
qed

lemma unat_fields16:
  "unat h = Sign16 h * 2 ^ 15 + Exponent16 h * 2 ^ 10 + Mantissa16 h"
  unfolding Sign16_eq Exponent16_eq Mantissa16_eq by (rule split3_nat16)

lemma Mantissa16_less [simp]: "Mantissa16 h < 1024"
  by (simp add: Mantissa16_eq)

lemma Exponent16_less [simp]: "Exponent16 h < 32"
  by (simp add: Exponent16_eq)

lemma Sign16_less [simp]: "Sign16 h < 2"
proof -
  have "unat h < 2 ^ 16" using unsigned_less[of h] by simp
  then show ?thesis by (simp add: Sign16_eq)
qed

lemma fields16_less: "Exponent16 h * 1024 + Mantissa16 h < 32768"
  using Exponent16_less[of h] Mantissa16_less[of h] by linarith

lemma fields32_of_unat:
  assumes "unat w = s * 2 ^ 31 + (e * 2 ^ 23 + m)" "e < 256" "m < 8388608"
  shows "Sign32 w = s" "Exponent32 w = e" "Mantissa32 w = m"
proof -
  have a: "e * 8388608 + m < 2147483648" using assms(2,3) by linarith
  have "unat w = s * 2147483648 + (e * 8388608 + m)" using assms(1) by simp
  then show "Sign32 w = s" using a by (simp add: Sign32_eq)
  have "unat w div 8388608 = s * 256 + e" using assms by simp
  then show "Exponent32 w = e" using assms(2) by (simp add: Exponent32_eq)
  have u: "unat w = (s * 256 + e) * 8388608 + m" using assms(1) by simp
  have "((s * 256 + e) * 8388608 + m) mod 8388608 = m"
    using assms(3) by (simp only: mod_mult_self3) simp
  moreover have "Mantissa32 w = unat w mod 8388608" by (simp add: Mantissa32_eq)
  ultimately show "Mantissa32 w = m" by (simp only: u)
qed

lemma unat_low15_shift:
  "unat (push_bit 13 (ucast ((h :: 16 word) AND 0x7fff)) :: 32 word)
     = Exponent16 h * 2 ^ 23 + Mantissa16 h * 2 ^ 13"
proof -
  have m: "(0x7fff :: 16 word) = mask 15" by (simp add: mask_eq_exp_minus_1)
  have "unat h = Sign16 h * 2 ^ 15 + (Exponent16 h * 2 ^ 10 + Mantissa16 h)"
    by (simp add: unat_fields16)
  moreover have "Exponent16 h * 2 ^ 10 + Mantissa16 h < 2 ^ 15" using fields16_less[of h] by simp
  ultimately have "unat h mod 2 ^ 15 = Exponent16 h * 2 ^ 10 + Mantissa16 h" by simp
  then have a: "unat (h AND mask 15) = Exponent16 h * 2 ^ 10 + Mantissa16 h"
    by (simp only: unat_and_mask)
  have "unat (ucast (h AND mask 15) :: 32 word) = unat (h AND mask 15)"
    by (simp only: unsigned_ucast_eq) (simp add: take_bit_eq_mod unat_and_mask)
  then have b: "unat (ucast (h AND mask 15) :: 32 word) = Exponent16 h * 2 ^ 10 + Mantissa16 h"
    using a by simp
  have "(Exponent16 h * 2 ^ 10 + Mantissa16 h) * 2 ^ 13 < 2 ^ 32"
    using fields16_less[of h] by simp
  then have "unat (push_bit 13 (ucast (h AND mask 15) :: 32 word)) 
      = (Exponent16 h * 2 ^ 10 + Mantissa16 h) * 2 ^ 13"
    by (subst unat_push_bit_small) (simp_all add: b)
  then show ?thesis unfolding m by (simp add: algebra_simps)
qed

lemma and_shifted_mask: 
  "(x :: 'a::len word) AND push_bit n (mask k) = push_bit n (take_bit k (drop_bit n x))"
  by (rule bit_eqI) (auto simp add: bit_simps)

lemma unat_shifted_exp:
  assumes "unat (r :: 32 word) = e * 2 ^ 23 + m" "e < 32" "m < 8388608"
  shows "unat (push_bit 13 0x7c00 AND r) = e * 2 ^ 23"
proof -
  have c: "(push_bit 13 0x7c00 :: 32 word) = push_bit 23 (mask 5)"
    by (simp add: mask_eq_exp_minus_1)
  have "unat r div 2 ^ 23 = e" using assms by simp
  then have "unat (take_bit 5 (drop_bit 23 r)) = e"
    using assms(2) by (simp only: unsigned_take_bit_eq unat_drop_bit_eq) (simp add: drop_bit_eq_div take_bit_eq_mod)
  moreover have "e * 2 ^ 23 < 2 ^ 32" using assms(2) by simp
  ultimately have "unat (push_bit 23 (take_bit 5 (drop_bit 23 r))) = e * 2 ^ 23"
    by (subst unat_push_bit_small) simp_all
  then show ?thesis unfolding c by (simp only: and_shifted_mask and.commute[of _ r])
qed

lemma sign16_to_32_eq:
  "(push_bit 16 (ucast ((h :: 16 word) AND 0x8000)) :: 32 word) = push_bit 31 (ucast (drop_bit 15 h))"
  by (rule bit_eqI) (auto simp add: bit_simps dest: nat_eq_15 nat_eq_31)

lemma unat_or_sign32:
  assumes "unat r < 2 ^ 31"
  shows "unat (r OR push_bit 16 (ucast ((h :: 16 word) AND 0x8000)) :: 32 word)
      = Sign16 h * 2 ^ 31 + unat r"
proof -
  have "unat (drop_bit 15 h) < 2 ^ 16" using unsigned_less[of "drop_bit 15 h"] by simp
  then have "unat (ucast (drop_bit 15 h) :: 32 word) = Sign16 h"
    unfolding Sign16_def by (simp only: unsigned_ucast_eq) (simp add: take_bit_eq_mod)
  then have "unat (push_bit 31 (ucast (drop_bit 15 h)) :: 32 word) = push_bit 31 (Sign16 h)"
    using Sign16_less[of h] by (subst unat_push_bit_small) (simp_all add: push_bit_eq_mult)
  moreover have "unat r OR push_bit 31 (Sign16 h) = unat r + Sign16 h * 2 ^ 31"
    using assms by (rule or_take_push_nat)
  ultimately show ?thesis by (simp only: unsigned_or_eq sign16_to_32_eq)
qed


lemma half_to_float_unfold:
  assumes "r1 = push_bit 13 (ucast (h AND 0x7fff))" and "ex = push_bit 13 0x7c00 AND r1"
    and "r2 = r1 + word_of_nat 939524096"
  shows "half_to_float h =
     (if ex = 260046848 then r2 + word_of_nat 939524096
      else if ex = 0 then fp32_sub (r2 + word_of_nat 8388608) 947912704
      else r2)
     OR push_bit 16 (ucast (h AND 0x8000))"
proof -
  have c: "(push_bit 23 (127 - 15) :: 32 word) = word_of_nat 939524096" by simp
  show ?thesis
    unfolding half_to_float_def Let_def c assms(1)[symmetric] assms(2)[symmetric] assms(3)[symmetric]
    by simp
qed

lemma half_to_float_stage:
  fixes h :: "16 word"
  defines "r1 \<equiv> push_bit 13 (ucast (h AND 0x7fff)) :: 32 word"
  defines "ex \<equiv> push_bit 13 0x7c00 AND r1"
  shows "unat r1 = Exponent16 h * 8388608 + Mantissa16 h * 8192"
    and "ex = 260046848 \<longleftrightarrow> Exponent16 h = 31"
    and "ex = 0 \<longleftrightarrow> Exponent16 h = 0"
proof -
  have r1: "unat r1 = Exponent16 h * 2 ^ 23 + Mantissa16 h * 2 ^ 13"
    unfolding r1_def by (rule unat_low15_shift)
  then show "unat r1 = Exponent16 h * 8388608 + Mantissa16 h * 8192" by simp
  have "Mantissa16 h * 2 ^ 13 < 8388608" using Mantissa16_less[of h] by simp
  from unat_shifted_exp[OF r1 Exponent16_less this]
  have e: "unat ex = Exponent16 h * 2 ^ 23" unfolding ex_def .
  have "ex = 260046848 \<longleftrightarrow> unat ex = unat (260046848 :: 32 word)"
    by (simp only: word_unat_eq_iff)
  then show "ex = 260046848 \<longleftrightarrow> Exponent16 h = 31" unfolding e by simp
  have "ex = 0 \<longleftrightarrow> unat ex = unat (0 :: 32 word)"
    by (simp only: word_unat_eq_iff)
  then show "ex = 0 \<longleftrightarrow> Exponent16 h = 0" unfolding e by simp
qed

lemma unat_add_small32:
  "unat (a :: 32 word) + n < 4294967296 \<Longrightarrow> unat (a + word_of_nat n) = unat a + n"
  by (simp add: unat_word_ariths unat_of_nat)

lemma half_to_float_nan_inf:
  assumes "Exponent16 h = 31"
  shows "unat (half_to_float h) = Sign16 h * 2 ^ 31 + (255 * 2 ^ 23 + Mantissa16 h * 2 ^ 13)"
proof -
  define r1 :: "32 word" where "r1 = push_bit 13 (ucast (h AND 0x7fff))"
  define ex where "ex = push_bit 13 0x7c00 AND r1"
  define r2 where "r2 = r1 + word_of_nat 939524096"
  define r3 where "r3 = r2 + word_of_nat 939524096"
  note st = half_to_float_stage[of h, folded r1_def, folded ex_def]
  have "unat r1 + 939524096 < 4294967296"
    unfolding st(1) assms using Mantissa16_less[of h] by linarith
  then have r2: "unat r2 = unat r1 + 939524096" unfolding r2_def by (rule unat_add_small32)
  have "unat r2 + 939524096 < 4294967296"
    unfolding r2 st(1) assms using Mantissa16_less[of h] by linarith
  then have "unat r3 = unat r2 + 939524096" unfolding r3_def by (rule unat_add_small32)
  then have r3: "unat r3 = 255 * 2 ^ 23 + Mantissa16 h * 2 ^ 13" 
    unfolding r2 st(1) assms by simp
  have "unat r3 < 2 ^ 31" unfolding r3 using Mantissa16_less[of h] by simp
  from unat_or_sign32[OF this, of h] have "unat (r3 OR push_bit 16 (ucast (h AND 0x8000)))
      = Sign16 h * 2 ^ 31 + (255 * 2 ^ 23 + Mantissa16 h * 2 ^ 13)"
    unfolding r3 .
  moreover have "half_to_float h = r3 OR push_bit 16 (ucast (h AND 0x8000))"
    unfolding half_to_float_unfold[OF r1_def ex_def r2_def] r3_def[symmetric]
    using assms by (simp add: st)
  ultimately show ?thesis by simp
qed

lemma half_to_float_normal:
  assumes "Exponent16 h \<noteq> 31" "Exponent16 h \<noteq> 0"
  shows "unat (half_to_float h) =
     Sign16 h * 2 ^ 31 + ((Exponent16 h + 112) * 2 ^ 23 + Mantissa16 h * 2 ^ 13)"
proof -
  define r1 :: "32 word" where "r1 = push_bit 13 (ucast (h AND 0x7fff))"
  define ex where "ex = push_bit 13 0x7c00 AND r1"
  define r2 where "r2 = r1 + word_of_nat 939524096"
  note st = half_to_float_stage[of h, folded r1_def, folded ex_def]
  have e: "Exponent16 h \<le> 30" using assms(1) Exponent16_less[of h] by linarith
  have "unat r1 + 939524096 < 4294967296"
    unfolding st(1) using Mantissa16_less[of h] e by linarith
  then have "unat r2 = unat r1 + 939524096" unfolding r2_def by (rule unat_add_small32)
  then have r2: "unat r2 = (Exponent16 h + 112) * 2 ^ 23 + Mantissa16 h * 2 ^ 13" 
    unfolding st(1) by simp
  have "Exponent16 h * 8388608 + Mantissa16 h * 8192 < 1207959552"
    using Mantissa16_less[of h] e by linarith
  then have "unat r2 < 2 ^ 31" unfolding r2 by simp
  from unat_or_sign32[OF this, of h] have "unat (r2 OR push_bit 16 (ucast (h AND 0x8000)))
      = Sign16 h * 2 ^ 31 + ((Exponent16 h + 112) * 2 ^ 23 + Mantissa16 h * 2 ^ 13)"
    unfolding r2 .
  moreover have "half_to_float h = r2 OR push_bit 16 (ucast (h AND 0x8000))"
    unfolding half_to_float_unfold[OF r1_def ex_def r2_def]
    using assms by (simp add: st)
  ultimately show ?thesis by simp
qed


subsection \<open>The float subtraction of the widening converter\<close>

lemma bit_length_bounds:
  assumes "0 < m"
  shows "2 ^ (bit_length m - 1) \<le> m" "m < 2 ^ bit_length m" "1 \<le> bit_length m"
proof -
  show "2 ^ (bit_length m - 1) \<le> m" "m < 2 ^ bit_length m"
    using floorlog_bounds[of m 2] assms by (simp_all add: bit_length_def)
  show "1 \<le> bit_length m"
    using assms by (simp add: bit_length_def floorlog_def)
qed

lemma bit_length_le: "m < 2 ^ k \<Longrightarrow> bit_length m \<le> k"
  by (simp add: bit_length_def floorlog_le_iff)

lemma bit_length_shift: "0 < m \<Longrightarrow> bit_length (m * 2 ^ c) = bit_length m + c"
  by (simp add: bit_length_def)

lemma rne_shift_exact: "rne_shift (a * 2 ^ j) j = a"
  using rne_shift_scale[of a j 0] by (simp add: rne_shift_def)

lemma round32_exact_small:
  assumes "0 < m" "m < 1024"
  shows "round32 (m * 2 ^ 125) 0 =
     word_of_nat ((bit_length m + 101) * 2 ^ 23 + m * 2 ^ (24 - bit_length m))"
    and "m * 2 ^ (24 - bit_length m) < 2 ^ 24"
    and "2 ^ 23 \<le> m * 2 ^ (24 - bit_length m)"
    and "bit_length m \<le> 10"
proof -
  define k where "k = bit_length m"
  have k: "1 \<le> k" "k \<le> 10" "m < 2 ^ k" "2 ^ (k - 1) \<le> m"
    using bit_length_bounds[OF assms(1)] bit_length_le[of m 10] assms(2) by (simp_all add: k_def)
  show "bit_length m \<le> 10" using k by (simp add: k_def)
  have p: "(2::nat) ^ k * 2 ^ (24 - k) = 2 ^ 24" "(2::nat) ^ (k - 1) * 2 ^ (24 - k) = 2 ^ 23"
    using k by (simp_all add: power_add[symmetric])
  have "m * 2 ^ (24 - k) < 2 ^ k * 2 ^ (24 - k)" using k(3) by simp
  then have lt: "m * 2 ^ (24 - k) < 2 ^ 24" unfolding p .
  then show "m * 2 ^ (24 - bit_length m) < 2 ^ 24" unfolding k_def .
  have "2 ^ (k - 1) * 2 ^ (24 - k) \<le> m * 2 ^ (24 - k)" using k(4) by simp
  then have "2 ^ 23 \<le> m * 2 ^ (24 - k)" unfolding p .
  then show "2 ^ 23 \<le> m * 2 ^ (24 - bit_length m)" unfolding k_def .
  have bl: "bit_length (m * 2 ^ 125) = k + 125"
    using assms(1) by (simp only: bit_length_shift k_def)
  have "(2::nat) ^ 125 = 2 ^ (24 - k) * 2 ^ (k + 101)"
    using k by (simp add: power_add[symmetric])
  then have "m * 2 ^ 125 = (m * 2 ^ (24 - k)) * 2 ^ (k + 101)" by simp
  then have r: "rne_shift (m * 2 ^ 125) (k + 101) = m * 2 ^ (24 - k)"
    by (simp only: rne_shift_exact)
  define p where "p = (k + 101) * 2 ^ 23 + m * 2 ^ (24 - k)"
  have sh: "max 0 (bit_length (m * 2 ^ 125) - 24) = k + 101" unfolding bl by simp
  have "(k + 101) * 8388608 \<le> 111 * 8388608" using k by simp
  then have "p < 2139095040" using lt by (simp add: p_def)
  moreover have "round32 (m * 2 ^ 125) 0 = (if p \<ge> 0x7F800000 then 0x7F800000 else word_of_nat p)"
    unfolding round32_def Let_def sh by (simp only: r p_def diff_zero)
  ultimately have "round32 (m * 2 ^ 125) 0 = word_of_nat p" by simp
  then show "round32 (m * 2 ^ 125) 0 =
     word_of_nat ((bit_length m + 101) * 2 ^ 23 + m * 2 ^ (24 - bit_length m))"
    unfolding p_def k_def .
qed


lemma neg_magic_fields:
  "Exponent32 3095396352 = 113" "Mantissa32 3095396352 = 0" "Sign32 3095396352 = 1"
  by (simp_all add: Exponent32_def Mantissa32_def Sign32_def)

lemma fp32_sub_renorm:
  assumes "unat a = 113 * 2 ^ 23 + m * 2 ^ 13" "m < 1024"
  shows "fp32_sub a 947912704 =
     (if m = 0 then 0
      else word_of_nat ((bit_length m + 101) * 2 ^ 23 + m * 2 ^ (24 - bit_length m)))"
proof -
  have u: "unat a = 0 * 2 ^ 31 + (113 * 2 ^ 23 + m * 2 ^ 13)" using assms(1) by simp
  have e: "(113::nat) < 256" by simp
  have l: "m * 2 ^ 13 < 8388608" using assms(2) by simp
  note fa = fields32_of_unat[OF u e l]
  have fin: "\<not> is_nan32 a" "\<not> is_inf32 a" "\<not> is_nan32 3095396352" "\<not> is_inf32 3095396352"
    by (simp_all add: is_nan32_def is_inf32_def fa neg_magic_fields)
  have "(2 ^ 23 + m * 2 ^ 13) * (2::nat) ^ 112 = 2 ^ 23 * 2 ^ 112 + m * (2 ^ 13 * 2 ^ 112)"
    by (simp add: algebra_simps)
  also have "(2::nat) ^ 13 * 2 ^ 112 = 2 ^ 125" by (simp only: power_add[symmetric]) simp
  finally have ma: "mag32 a = 2 ^ 23 * 2 ^ 112 + m * 2 ^ 125" by (simp add: mag32_def fa)
  have mb: "mag32 3095396352 = 2 ^ 23 * 2 ^ 112" by (simp add: mag32_def neg_magic_fields)
  have s: "sval32 a + sval32 3095396352 = int (m * 2 ^ 125)"
    unfolding sval32_def fa neg_magic_fields ma mb by simp
  have x: "(947912704 :: 32 word) XOR 0x80000000 = 3095396352" by simp
  show ?thesis
  proof (cases "m = 0")
    case True
    then show ?thesis unfolding fp32_sub_def x fp32_add_def Let_def s using fin fa by simp
  next
    case False
    then have pos: "0 < m" by simp
    have "fp32_add a 3095396352 = round32 (m * 2 ^ 125) 0"
      unfolding fp32_add_def Let_def s using fin pos
      by (simp only: nat_int if_False of_nat_0_less_iff of_nat_eq_0_iff of_nat_less_0_iff) simp
    then show ?thesis unfolding fp32_sub_def x using False
      by (simp only: round32_exact_small(1)[OF pos assms(2)] if_False)
  qed
qed


subsection \<open>Fields of the widened pattern\<close>

lemma half_to_float_subnormal:
  assumes "Exponent16 h = 0"
  shows "unat (half_to_float h) = Sign16 h * 2 ^ 31 +
     (if Mantissa16 h = 0 then 0
      else (bit_length (Mantissa16 h) + 101) * 2 ^ 23
           + Mantissa16 h * 2 ^ (24 - bit_length (Mantissa16 h)))"
proof -
  define m where "m = Mantissa16 h"
  define r1 :: "32 word" where "r1 = push_bit 13 (ucast (h AND 0x7fff))"
  define ex where "ex = push_bit 13 0x7c00 AND r1"
  define r2 where "r2 = r1 + word_of_nat 939524096"
  define r3 where "r3 = r2 + word_of_nat 8388608"
  define p where "p = (if m = 0 then 0 else (bit_length m + 101) * 2 ^ 23 + m * 2 ^ (24 - bit_length m))"
  note st = half_to_float_stage[of h, folded r1_def, folded ex_def]
  have m: "m < 1024" by (simp add: m_def)
  have "unat r1 + 939524096 < 4294967296"
    unfolding st(1) assms using Mantissa16_less[of h] by linarith
  then have r2: "unat r2 = unat r1 + 939524096" unfolding r2_def by (rule unat_add_small32)
  have "unat r2 + 8388608 < 4294967296"
    unfolding r2 st(1) assms using Mantissa16_less[of h] by linarith
  then have "unat r3 = unat r2 + 8388608" unfolding r3_def by (rule unat_add_small32)
  then have r3: "unat r3 = 113 * 2 ^ 23 + m * 2 ^ 13" 
    unfolding r2 st(1) assms m_def by simp
  have sub: "fp32_sub r3 947912704 = word_of_nat p"
    unfolding fp32_sub_renorm[OF r3 m] p_def by simp
  have pl: "p < 2 ^ 31"
  proof (cases "m = 0")
    case True then show ?thesis by (simp add: p_def)
  next
    case False
    then have pos: "0 < m" by simp
    note b = round32_exact_small(2,4)[OF pos m]
    have "(bit_length m + 101) * 8388608 \<le> 111 * 8388608" using b(2) by simp
    then show ?thesis using b(1) False by (simp add: p_def)
  qed
  then have "unat (word_of_nat p :: 32 word) = p" by (simp add: unat_of_nat)
  with pl have "unat (fp32_sub r3 947912704) = p" "unat (fp32_sub r3 947912704) < 2 ^ 31"
    unfolding sub by simp_all
  from unat_or_sign32[OF this(2), of h] this(1)
  have "unat (fp32_sub r3 947912704 OR push_bit 16 (ucast (h AND 0x8000))) = Sign16 h * 2 ^ 31 + p"
    by simp
  moreover have "half_to_float h = fp32_sub r3 947912704 OR push_bit 16 (ucast (h AND 0x8000))"
    unfolding half_to_float_unfold[OF r1_def ex_def r2_def] r3_def[symmetric]
    using assms by (simp add: st)
  ultimately show ?thesis unfolding p_def m_def by simp
qed

lemma half_to_float_fields_special:
  assumes "Exponent16 h = 31"
  shows "Sign32 (half_to_float h) = Sign16 h" "Exponent32 (half_to_float h) = 255"
    "Mantissa32 (half_to_float h) = Mantissa16 h * 2 ^ 13"
proof -
  have l: "Mantissa16 h * 2 ^ 13 < 8388608" using Mantissa16_less[of h] by simp
  have e: "(255::nat) < 256" by simp
  note f = fields32_of_unat[OF half_to_float_nan_inf[OF assms] e l]
  show "Sign32 (half_to_float h) = Sign16 h" "Exponent32 (half_to_float h) = 255"
    "Mantissa32 (half_to_float h) = Mantissa16 h * 2 ^ 13"
    by (rule f)+
qed

lemma half_to_float_fields_normal:
  assumes "Exponent16 h \<noteq> 31" "Exponent16 h \<noteq> 0"
  shows "Sign32 (half_to_float h) = Sign16 h" "Exponent32 (half_to_float h) = Exponent16 h + 112"
    "Mantissa32 (half_to_float h) = Mantissa16 h * 2 ^ 13"
proof -
  have l: "Mantissa16 h * 2 ^ 13 < 8388608" using Mantissa16_less[of h] by simp
  have e: "Exponent16 h + 112 < 256" using Exponent16_less[of h] by linarith
  note f = fields32_of_unat[OF half_to_float_normal[OF assms] e l]
  show "Sign32 (half_to_float h) = Sign16 h" "Exponent32 (half_to_float h) = Exponent16 h + 112"
    "Mantissa32 (half_to_float h) = Mantissa16 h * 2 ^ 13"
    by (rule f)+
qed

lemma half_to_float_fields_zero:
  assumes "Exponent16 h = 0" "Mantissa16 h = 0"
  shows "Sign32 (half_to_float h) = Sign16 h" "Exponent32 (half_to_float h) = 0"
    "Mantissa32 (half_to_float h) = 0"
proof -
  have u: "unat (half_to_float h) = Sign16 h * 2 ^ 31 + (0 * 2 ^ 23 + 0)"
    using half_to_float_subnormal[OF assms(1)] assms(2) by simp
  have "(0::nat) < 256" "(0::nat) < 8388608" by simp_all
  note f = fields32_of_unat[OF u this]
  show "Sign32 (half_to_float h) = Sign16 h" "Exponent32 (half_to_float h) = 0"
    "Mantissa32 (half_to_float h) = 0"
    by (rule f)+
qed

lemma half_to_float_fields_subnormal:
  assumes "Exponent16 h = 0" "Mantissa16 h \<noteq> 0"
  shows "Sign32 (half_to_float h) = Sign16 h"
    "Exponent32 (half_to_float h) = bit_length (Mantissa16 h) + 102"
    "2 ^ 23 + Mantissa32 (half_to_float h) = Mantissa16 h * 2 ^ (24 - bit_length (Mantissa16 h))"
    "bit_length (Mantissa16 h) \<le> 10"
proof -
  define m where "m = Mantissa16 h"
  define k where "k = bit_length m"
  have pos: "0 < m" and m: "m < 1024" using assms(2) by (simp_all add: m_def)
  note b = round32_exact_small(2,3,4)[OF pos m, folded k_def]
  define q where "q = m * 2 ^ (24 - k) - 2 ^ 23"
  have q: "m * 2 ^ (24 - k) = 2 ^ 23 + q" "q < 8388608" using b(1,2) by (simp_all add: q_def)
  have "unat (half_to_float h) = Sign16 h * 2 ^ 31 + ((k + 101) * 2 ^ 23 + (2 ^ 23 + q))"
    using half_to_float_subnormal[OF assms(1)] assms(2) unfolding m_def[symmetric] k_def[symmetric] q(1)
    by simp
  then have u: "unat (half_to_float h) = Sign16 h * 2 ^ 31 + ((k + 102) * 2 ^ 23 + q)" by simp
  have e: "k + 102 < 256" using b(3) by simp
  note f = fields32_of_unat[OF u e q(2)]
  show "Sign32 (half_to_float h) = Sign16 h" by (rule f)
  show "Exponent32 (half_to_float h) = bit_length (Mantissa16 h) + 102"
    using f(2) by (simp add: k_def m_def)
  show "2 ^ 23 + Mantissa32 (half_to_float h) = Mantissa16 h * 2 ^ (24 - bit_length (Mantissa16 h))"
    using f(3) q(1) by (simp add: k_def m_def)
  show "bit_length (Mantissa16 h) \<le> 10" using b(3) by (simp add: k_def m_def)
qed


subsection \<open>Values and the round trip\<close>

lemma mag32_half_to_float:
  assumes "Exponent16 h \<noteq> 31"
  shows "mag32 (half_to_float h) =
     (if Exponent16 h = 0 then Mantissa16 h * 2 ^ 125
      else (2 ^ 10 + Mantissa16 h) * 2 ^ Exponent16 h * 2 ^ 124)"
proof -
  consider "Exponent16 h = 0" "Mantissa16 h = 0" | "Exponent16 h = 0" "Mantissa16 h \<noteq> 0"
    | "Exponent16 h \<noteq> 0" by blast
  then show ?thesis
  proof cases
    case 1
    then show ?thesis by (simp add: mag32_def half_to_float_fields_zero)
  next
    case 2
    define k where "k = bit_length (Mantissa16 h)"
    note f = half_to_float_fields_subnormal[OF 2, folded k_def]
    have p: "(2::nat) ^ (24 - k) * 2 ^ (k + 101) = 2 ^ 125"
      using f(4) by (simp add: power_add[symmetric])
    have "mag32 (half_to_float h) = (2 ^ 23 + Mantissa32 (half_to_float h)) * 2 ^ (k + 101)"
      by (simp add: mag32_def f(2))
    also have "\<dots> = Mantissa16 h * 2 ^ (24 - k) * 2 ^ (k + 101)"
      by (simp only: f(3))
    also have "\<dots> = Mantissa16 h * (2 ^ (24 - k) * 2 ^ (k + 101))"
      by (simp only: mult.assoc)
    also have "\<dots> = Mantissa16 h * 2 ^ 125" by (simp only: p)
    finally show ?thesis using 2 by simp
  next
    case 3
    note f = half_to_float_fields_normal[OF assms 3]
    have "mag32 (half_to_float h) = (2 ^ 23 + Mantissa16 h * 2 ^ 13) * 2 ^ (Exponent16 h + 111)"
      by (simp add: mag32_def f)
    also have "\<dots> = (2 ^ 10 + Mantissa16 h) * 2 ^ 13 * (2 ^ Exponent16 h * 2 ^ 111)"
      by (simp add: power_add algebra_simps)
    also have "\<dots> = (2 ^ 10 + Mantissa16 h) * 2 ^ Exponent16 h * (2 ^ 13 * 2 ^ 111)"
      by (simp only: mult.assoc mult.left_commute)
    also have "(2::nat) ^ 13 * 2 ^ 111 = 2 ^ 124" by (simp only: power_add[symmetric]) simp
    finally show ?thesis using 3 by simp
  qed
qed

lemma Sign32_half_to_float: "Sign32 (half_to_float h) = Sign16 h"
proof -
  consider "Exponent16 h = 31" | "Exponent16 h = 0" "Mantissa16 h = 0"
    | "Exponent16 h = 0" "Mantissa16 h \<noteq> 0" | "Exponent16 h \<noteq> 31" "Exponent16 h \<noteq> 0"
    by blast
  then show ?thesis
  proof cases
    case 1 then show ?thesis by (rule half_to_float_fields_special)
  next
    case 2 then show ?thesis by (rule half_to_float_fields_zero)
  next
    case 3 then show ?thesis by (rule half_to_float_fields_subnormal)
  next
    case 4 then show ?thesis by (rule half_to_float_fields_normal)
  qed
qed

lemma Exponent32_half_to_float_finite:
  assumes "Exponent16 h \<noteq> 31"
  shows "Exponent32 (half_to_float h) < 255"
proof -
  consider "Exponent16 h = 0" "Mantissa16 h = 0"
    | "Exponent16 h = 0" "Mantissa16 h \<noteq> 0" | "Exponent16 h \<noteq> 0"
    by blast
  then show ?thesis
  proof cases
    case 1 then show ?thesis by (simp add: half_to_float_fields_zero)
  next
    case 2 
    from half_to_float_fields_subnormal(2,4)[OF 2] show ?thesis by simp
  next
    case 3
    from half_to_float_fields_normal(2)[OF assms 3] Exponent16_less[of h] show ?thesis by linarith
  qed
qed

lemma valof_half_to_float:
  assumes "Exponent16 h \<noteq> 31"
  shows "valof32 (half_to_float h) = valof16 h"
proof (cases "Exponent16 h = 0")
  case True
  have "real (Mantissa16 h * 2 ^ 125) / 2 ^ 149 = real (Mantissa16 h) / 2 ^ 24"
    by simp
  then show ?thesis using True
    unfolding valof32_def valof16_def Sign32_half_to_float mag32_half_to_float[OF assms]
    by simp
next
  case False
  have "real ((2 ^ 10 + Mantissa16 h) * 2 ^ Exponent16 h * 2 ^ 124) / 2 ^ 149
      = real (2 ^ 10 + Mantissa16 h) * 2 ^ Exponent16 h / 2 ^ 25"
    by simp
  then show ?thesis using False
    unfolding valof32_def valof16_def Sign32_half_to_float mag32_half_to_float[OF assms]
    by simp
qed

lemma round_trip_unat:
  assumes "\<not> (Exponent16 h = 31 \<and> Mantissa16 h \<noteq> 0)"
  shows "unat (float_to_half_full_rtne (half_to_float h))
      = Sign16 h * 2 ^ 15 + Exponent16 h * 2 ^ 10 + Mantissa16 h"
proof -
  define f where "f = half_to_float h"
  consider "Exponent16 h = 31" "Mantissa16 h = 0" | "Exponent16 h = 0" "Mantissa16 h = 0"
    | "Exponent16 h = 0" "Mantissa16 h \<noteq> 0" | "Exponent16 h \<noteq> 31" "Exponent16 h \<noteq> 0"
    using assms by blast
  then show ?thesis
  proof cases
    case 1
    note g = half_to_float_fields_special[OF 1(1)]
    show ?thesis using full_rtne_nan_inf[OF g(2)] 1 by (simp add: g)
  next
    case 2
    note g = half_to_float_fields_zero[OF 2]
    have "Exponent32 (half_to_float h) \<le> 101" by (simp add: g)
    from full_rtne_tiny[OF this] show ?thesis using 2 by (simp add: g)
  next
    case 3
    define k where "k = bit_length (Mantissa16 h)"
    note g = half_to_float_fields_subnormal[OF 3, folded k_def]
    have e: "102 \<le> Exponent32 (half_to_float h)" "Exponent32 (half_to_float h) \<le> 112"
      using g(2,4) by simp_all
    have "126 - Exponent32 (half_to_float h) = 24 - k" using g(2,4) by simp
    moreover have "8388608 + Mantissa32 (half_to_float h) = Mantissa16 h * 2 ^ (24 - k)"
      using g(3) by simp
    ultimately show ?thesis using full_rtne_subnormal[OF e] 3
      by (simp add: g(1) rne_shift_exact)
  next
    case 4
    note g = half_to_float_fields_normal[OF 4]
    have e: "113 \<le> Exponent32 (half_to_float h)" "Exponent32 (half_to_float h) \<le> 142"
      using g(2) 4 Exponent16_less[of h] by linarith+
    show ?thesis using full_rtne_normal[OF e] rne_shift_exact[of "Mantissa16 h" 13]
      by (simp add: g)
  qed
qed

lemma round_trip_nan:
  assumes "Exponent16 h = 31" "Mantissa16 h \<noteq> 0"
  shows "unat (float_to_half_full_rtne (half_to_float h)) = Sign16 h * 2 ^ 15 + 0x7E00"
proof -
  note g = half_to_float_fields_special[OF assms(1)]
  show ?thesis using full_rtne_nan_inf[OF g(2)] assms(2) by (simp add: g)
qed


subsection \<open>Sign bits\<close>

lemma Sign16_set_Sign16: "Sign16 (set_Sign16 (Sign32 f) r) = Sign32 f"
proof -
  have "(unat r mod 2 ^ 15 + Sign32 f * 2 ^ 15) div 2 ^ 15 = Sign32 f"
    by simp
  then show ?thesis using Sign32_less[of f] by (simp add: Sign16_eq unat_set_Sign16)
qed

lemma Sign16_of_unat:
  assumes "unat h = s * 2 ^ 15 + r" "r < 2 ^ 15"
  shows "Sign16 h = s"
  using assms by (simp add: Sign16_eq)

lemma sign_full: "Sign16 (float_to_half_full f) = Sign32 f"
  unfolding float_to_half_full_def Let_def by (rule Sign16_set_Sign16)

lemma sign_full_rtne: "Sign16 (float_to_half_full_rtne f) = Sign32 f"
  unfolding float_to_half_full_rtne_def Let_def by (rule Sign16_set_Sign16)

lemma sign_fast: "Sign16 (float_to_half_fast f) = Sign32 f"
  unfolding float_to_half_fast_def Let_def by (rule Sign16_set_Sign16)

lemma sign_fast2: "Sign16 (float_to_half_fast2 f) = Sign32 f"
  unfolding float_to_half_fast2_def Let_def by (rule Sign16_set_Sign16)

lemma sign_fast3: "Sign16 (float_to_half_fast3 f) = Sign32 f"
proof -
  define x where "x = f XOR (f AND 0x80000000)"
  define y where "y = fp32_mul (x AND NOT 0xfff) 125829120 - NOT 0xfff"
  define z where "z = (if y > 260046848 then 260046848 else y)"
  define r :: "16 word" where "r = (if x \<ge> 2139095040 then (if x > 2139095040 then 0x7e00 else 0x7c00)
      else ucast (drop_bit 13 z))"
  have "unat z \<le> 260046848" unfolding z_def by (simp add: word_less_nat_alt)
  then have "unat z div 8192 \<le> 31744" by simp
  then have "unat (ucast (drop_bit 13 z) :: 16 word) \<le> 31744"
    by (simp only: unsigned_ucast_eq unat_drop_bit_eq) (simp add: take_bit_eq_mod drop_bit_eq_div)
  then have "unat r < 2 ^ 15" unfolding r_def by simp
  moreover have "float_to_half_fast3 f = r OR ucast (drop_bit 16 (f AND 0x80000000))"
    unfolding fast3_unfold[OF refl x_def] r_def z_def y_def Let_def ..
  ultimately have "unat (float_to_half_fast3 f) = Sign32 f * 2 ^ 15 + unat r" "unat r < 2 ^ 15"
    by (simp_all only: unat_or_sign_half)
  then show ?thesis by (rule Sign16_of_unat)
qed

lemma sign_fast3_rtne: "Sign16 (float_to_half_fast3_rtne f) = Sign32 f"
proof -
  have "Sign16 (float_to_half_full_rtne f) = Sign32 f" by (rule sign_full_rtne)
  moreover have "unat (float_to_half_fast3_rtne f) = unat (float_to_half_full_rtne f)"
  proof -
    consider "Exponent32 f = 255" | "143 \<le> Exponent32 f" "Exponent32 f \<noteq> 255"
      | "113 \<le> Exponent32 f" "Exponent32 f \<le> 142"
      | "102 \<le> Exponent32 f" "Exponent32 f \<le> 112" | "Exponent32 f \<le> 101"
      by linarith
    then show ?thesis
    proof cases
      case 1
      show ?thesis by (simp only: full_rtne_nan_inf[OF 1] fast3_rtne_nan_inf[OF 1])
    next
      case 2
      show ?thesis by (simp only: full_rtne_overflow[OF 2] fast3_rtne_overflow[OF 2])
    next
      case 3
      show ?thesis by (simp only: full_rtne_normal[OF 3] fast3_rtne_normal[OF 3])
    next
      case 4
      show ?thesis by (simp only: full_rtne_subnormal[OF 4] fast3_rtne_subnormal[OF 4])
    next
      case 5
      show ?thesis by (simp only: full_rtne_tiny[OF 5] fast3_rtne_tiny[OF 5])
    qed
  qed
  ultimately show ?thesis by (simp add: Sign16_eq)
qed

section \<open>The claims\<close>

text \<open>
  C1. For every 32-bit input pattern, with host arithmetic that rounds to nearest even,
  the reference converter \<open>float_to_half_full_rtne\<close> and the fast converter
  \<open>float_to_half_fast3_rtne\<close> return the same 16-bit pattern.
\<close>

theorem C1_full_rtne_eq_fast3_rtne:
  "float_to_half_full_rtne f = float_to_half_fast3_rtne f"
proof -
  consider "Exponent32 f = 255" | "143 \<le> Exponent32 f" "Exponent32 f \<noteq> 255"
    | "113 \<le> Exponent32 f" "Exponent32 f \<le> 142"
    | "102 \<le> Exponent32 f" "Exponent32 f \<le> 112" | "Exponent32 f \<le> 101"
    by linarith
  then have "unat (float_to_half_full_rtne f) = unat (float_to_half_fast3_rtne f)"
  proof cases
    case 1
    show ?thesis by (simp only: full_rtne_nan_inf[OF 1] fast3_rtne_nan_inf[OF 1])
  next
    case 2
    show ?thesis by (simp only: full_rtne_overflow[OF 2] fast3_rtne_overflow[OF 2])
  next
    case 3
    show ?thesis by (simp only: full_rtne_normal[OF 3] fast3_rtne_normal[OF 3])
  next
    case 4
    show ?thesis by (simp only: full_rtne_subnormal[OF 4] fast3_rtne_subnormal[OF 4])
  next
    case 5
    show ?thesis by (simp only: full_rtne_tiny[OF 5] fast3_rtne_tiny[OF 5])
  qed
  then show ?thesis by (simp only: word_unat_eq_iff)
qed

text \<open>
  C9. For every 32-bit input pattern, \<open>float_to_half_full\<close> and \<open>float_to_half_fast\<close>
  return the same 16-bit pattern: the branch of \<open>float_to_half_full\<close> for an exponent
  field of zero is redundant, since for an input with exponent field zero (a zero or a
  single-precision subnormal) the underflow path of \<open>float_to_half_fast\<close> yields the
  signed zero, the pattern with the sign bit of the input and all other bits clear,
  which is what that branch of \<open>float_to_half_full\<close> yields.
\<close>

theorem C9_full_eq_fast:
  "float_to_half_full f = float_to_half_fast f
   \<and> (Exponent32 f = 0 \<longrightarrow>
        unat (float_to_half_fast f) = Sign32 f * 2 ^ 15
        \<and> unat (float_to_half_full f) = Sign32 f * 2 ^ 15
        \<and> Sign16 (float_to_half_fast f) = Sign32 f
        \<and> Exponent16 (float_to_half_fast f) = 0
        \<and> Mantissa16 (float_to_half_fast f) = 0)"
proof (intro conjI impI)
  show eq: "float_to_half_full f = float_to_half_fast f"
    by (simp add: float_to_half_full_def float_to_half_fast_def Let_def set_Exponent16_def)
  assume e: "Exponent32 f = 0"
  have z: "unat (0 :: 16 word) < 2 ^ 15" by simp
  have "float_to_half_fast f = set_Sign16 (Sign32 f) 0"
    using e by (simp add: float_to_half_fast_def Let_def)
  then show u: "unat (float_to_half_fast f) = Sign32 f * 2 ^ 15"
    using unat_set_Sign16_small[OF z, of f] by simp
  then show "unat (float_to_half_full f) = Sign32 f * 2 ^ 15"
    by (simp only: eq)
  have "unat (float_to_half_fast f) = Sign32 f * 2 ^ 15 + (0 * 2 ^ 10 + 0)"
    using u by simp
  moreover have "(0::nat) < 32" "(0::nat) < 1024" by simp_all
  ultimately show "Sign16 (float_to_half_fast f) = Sign32 f"
    "Exponent16 (float_to_half_fast f) = 0" "Mantissa16 (float_to_half_fast f) = 0"
    by (rule fields16_of_unat)+
qed

theorem C9_full_eq_fast_witness:
  "Exponent32 0x80000001 = 0
   \<and> float_to_half_fast 0x80000001 = 0x8000
   \<and> float_to_half_full 0x80000001 = 0x8000"
proof -
  have e: "Exponent32 0x80000001 = 0" and s: "Sign32 0x80000001 = 1"
    by (simp_all add: Exponent32_def Sign32_def)
  from C9_full_eq_fast[of "0x80000001"] e s
  have "unat (float_to_half_fast 0x80000001) = unat (0x8000 :: 16 word)"
    "unat (float_to_half_full 0x80000001) = unat (0x8000 :: 16 word)"
    by simp_all
  then show ?thesis using e by (simp only: word_unat_eq_iff simp_thms)
qed

text \<open>
  C6. For every 32-bit input whose exponent field is all-ones, the reference converters
  (\<open>float_to_half_full\<close>, \<open>float_to_half_full_rtne\<close>) and \<open>float_to_half_fast3\<close> return a
  pattern with exponent field all-ones, mantissa 0 for an Infinity and mantissa \<open>0x200\<close>
  (the top mantissa bit alone) otherwise, and the sign of the input: every NaN, signaling
  or quiet, gives a quiet half NaN and never an Infinity.
\<close>

theorem C6_nan_inf:
  assumes "Exponent32 f = 255"
  shows "(Exponent16 (float_to_half_full f) = 31
          \<and> Mantissa16 (float_to_half_full f) = (if Mantissa32 f = 0 then 0 else 0x200)
          \<and> Sign16 (float_to_half_full f) = Sign32 f)
       \<and> (Exponent16 (float_to_half_full_rtne f) = 31
          \<and> Mantissa16 (float_to_half_full_rtne f) = (if Mantissa32 f = 0 then 0 else 0x200)
          \<and> Sign16 (float_to_half_full_rtne f) = Sign32 f)
       \<and> (Exponent16 (float_to_half_fast3 f) = 31
          \<and> Mantissa16 (float_to_half_fast3 f) = (if Mantissa32 f = 0 then 0 else 0x200)
          \<and> Sign16 (float_to_half_fast3 f) = Sign32 f)"
  using quiet_fields[OF full_nan_inf[OF assms]] quiet_fields[OF full_rtne_nan_inf[OF assms]]
    quiet_fields[OF fast3_nan_inf[OF assms]]
  by blast

theorem C6_nan_inf_witness:
  "Exponent32 0xFF800001 = 255 \<and> Mantissa32 0xFF800001 = 1
   \<and> Exponent16 (float_to_half_full 0xFF800001) = 31
   \<and> Mantissa16 (float_to_half_full 0xFF800001) = 0x200
   \<and> Sign16 (float_to_half_full 0xFF800001) = 1
   \<and> Mantissa16 (float_to_half_full_rtne 0xFF800001) = 0x200
   \<and> Mantissa16 (float_to_half_fast3 0xFF800001) = 0x200"
proof -
  have e: "Exponent32 0xFF800001 = 255" and m: "Mantissa32 0xFF800001 = 1"
    and s: "Sign32 0xFF800001 = 1"
    by (simp_all add: Exponent32_def Mantissa32_def Sign32_def)
  from C6_nan_inf[OF e] show ?thesis by (simp add: e m s)
qed

text \<open>
  C5. In \<open>float_to_half_full_rtne\<close> the retained mantissa is incremented exactly when the
  discarded bits exceed half a unit in the last retained place, or equal exactly half
  and the retained mantissa is odd. The rule is the same in the branch for a normal
  result (exponent field 113 to 142, 13 bits discarded) and in the branch for a
  subnormal result (exponent field 102 to 112, \<open>126 - Exponent\<close> bits of the mantissa
  with its hidden bit discarded).
\<close>

theorem C5_ties_to_even:
  "(113 \<le> Exponent32 f \<and> Exponent32 f \<le> 142 \<longrightarrow>
      unat (float_to_half_full_rtne f) =
        Sign32 f * 2 ^ 15 + (Exponent32 f - 112) * 2 ^ 10 + Mantissa32 f div 2 ^ 13
        + (if rtne_increment (Mantissa32 f div 2 ^ 13) (Mantissa32 f mod 2 ^ 13) (2 ^ 12)
           then 1 else 0))
   \<and> (102 \<le> Exponent32 f \<and> Exponent32 f \<le> 112 \<longrightarrow>
      unat (float_to_half_full_rtne f) =
        Sign32 f * 2 ^ 15 + (2 ^ 23 + Mantissa32 f) div 2 ^ (126 - Exponent32 f)
        + (if rtne_increment ((2 ^ 23 + Mantissa32 f) div 2 ^ (126 - Exponent32 f))
                ((2 ^ 23 + Mantissa32 f) mod 2 ^ (126 - Exponent32 f))
                (2 ^ (126 - Exponent32 f - 1))
           then 1 else 0))"
proof (intro conjI impI)
  assume "113 \<le> Exponent32 f \<and> Exponent32 f \<le> 142"
  then show "unat (float_to_half_full_rtne f) =
        Sign32 f * 2 ^ 15 + (Exponent32 f - 112) * 2 ^ 10 + Mantissa32 f div 2 ^ 13
        + (if rtne_increment (Mantissa32 f div 2 ^ 13) (Mantissa32 f mod 2 ^ 13) (2 ^ 12)
           then 1 else 0)"
    by (simp add: full_rtne_normal rne_shift_13 rtne_increment_def)
next
  assume a: "102 \<le> Exponent32 f \<and> Exponent32 f \<le> 112"
  then have "1 \<le> 126 - Exponent32 f" by linarith
  from rne_shift_alt[OF this] a
  show "unat (float_to_half_full_rtne f) =
        Sign32 f * 2 ^ 15 + (2 ^ 23 + Mantissa32 f) div 2 ^ (126 - Exponent32 f)
        + (if rtne_increment ((2 ^ 23 + Mantissa32 f) div 2 ^ (126 - Exponent32 f))
                ((2 ^ 23 + Mantissa32 f) mod 2 ^ (126 - Exponent32 f))
                (2 ^ (126 - Exponent32 f - 1))
           then 1 else 0)"
    by (simp add: full_rtne_subnormal rtne_increment_def)
qed

theorem C5_ties_to_even_witness:
  "(113 \<le> Exponent32 0x3F803000 \<and> Exponent32 0x3F803000 \<le> 142)
   \<and> rtne_increment (Mantissa32 0x3F803000 div 2 ^ 13) (Mantissa32 0x3F803000 mod 2 ^ 13) (2 ^ 12)
   \<and> unat (float_to_half_full_rtne 0x3F803000) = 0x3C02
   \<and> (102 \<le> Exponent32 0x33C00000 \<and> Exponent32 0x33C00000 \<le> 112)
   \<and> unat (float_to_half_full_rtne 0x33C00000) = 2"
proof -
  have a: "Exponent32 0x3F803000 = 127" "Mantissa32 0x3F803000 = 0x3000" "Sign32 0x3F803000 = 0"
    and b: "Exponent32 0x33C00000 = 103" "Mantissa32 0x33C00000 = 0x400000" "Sign32 0x33C00000 = 0"
    by (simp_all add: Exponent32_def Mantissa32_def Sign32_def)
  from C5_ties_to_even[of "0x3F803000"] C5_ties_to_even[of "0x33C00000"]
  show ?thesis unfolding a b by (simp add: rtne_increment_def)
qed

text \<open>
  C8, as stated: the pattern \<open>0x477F8000\<close>, given as the pattern of 65520.0, converts
  to the half Infinity \<open>0x7C00\<close>. That pattern denotes 65408.0 and converts to the
  finite half \<open>0x7BFC\<close>.
\<close>

theorem C8_pattern_counterexample:
  "valof32 0x477F8000 = 65408 \<and> float_to_half_full_rtne 0x477F8000 = 0x7BFC
   \<and> float_to_half_full_rtne 0x477F8000 \<noteq> 0x7C00"
  by (simp add: valof32_def mag32_def float_to_half_full_rtne_def field_defs Let_def)

text \<open>
  C8, amended: the single-precision pattern of 65520.0 is \<open>0x477FF000\<close> and
  \<open>float_to_half_full_rtne\<close> converts it to the half Infinity \<open>0x7C00\<close>; the pattern of
  65504.0 is \<open>0x477FE000\<close> and converts to the largest finite half \<open>0x7BFF\<close>, which
  \<open>half_to_float\<close> maps back to \<open>0x477FE000\<close>, exactly 65504.0.
\<close>

theorem C8_overflow_boundary:
  "valof32 0x477FF000 = 65520 \<and> float_to_half_full_rtne 0x477FF000 = 0x7C00
   \<and> valof32 0x477FE000 = 65504 \<and> float_to_half_full_rtne 0x477FE000 = 0x7BFF
   \<and> half_to_float 0x7BFF = 0x477FE000 \<and> valof16 0x7BFF = 65504"
  by (simp add: valof32_def valof16_def mag32_def float_to_half_full_rtne_def half_to_float_def
      field_defs Let_def)

text \<open>
  C10. \<open>approx_float_to_half\<close> maps the positive Infinity \<open>0x7F800000\<close> to \<open>0xFC00\<close>, the
  half negative Infinity: the value of the Inf/NaN branch is overwritten by the shift
  that follows it, so for an input with exponent field all-ones the result is the low
  16 bits of the sign-stripped input shifted right by 13, with the sign of the input
  ORed in.
\<close>

theorem C10_approx_inf_nan:
  "approx_float_to_half 0x7F800000 = 0xFC00
   \<and> (Exponent32 f = 255 \<longrightarrow>
        approx_float_to_half f =
          ucast (drop_bit 13 (f XOR (f AND 0x80000000))) OR ucast (drop_bit 16 (f AND 0x80000000)))"
proof (intro conjI impI)
  have "Exponent32 0x7F800000 = 255" by (simp add: Exponent32_def)
  from approx_nan_inf[OF this] show "approx_float_to_half 0x7F800000 = 0xFC00" by simp
next
  assume "Exponent32 f = 255"
  then show "approx_float_to_half f =
      ucast (drop_bit 13 (f XOR (f AND 0x80000000))) OR ucast (drop_bit 16 (f AND 0x80000000))"
    by (rule approx_nan_inf)
qed

theorem C10_approx_inf_nan_witness:
  "Exponent32 0xFFC00001 = 255 \<and> approx_float_to_half 0xFFC00001 = 0xFE00"
proof -
  have e: "Exponent32 0xFFC00001 = 255" by (simp add: Exponent32_def)
  from C10_approx_inf_nan[of "0xFFC00001"] e show ?thesis by simp
qed

text \<open>
  C2. Built without \<open>__aarch64__\<close>, \<open>float_to_half\<close> is \<open>float_to_half_reference\<close>, which
  computes what \<open>float_to_half_fast\<close> computes and rounds a tie upwards. At
  \<open>0x3F801000\<close>, the value \<open>1 + 1/2048\<close> halfway between the halves \<open>0x3C00\<close> and \<open>0x3C01\<close>,
  it returns the odd \<open>0x3C01\<close>, where rounding to nearest even
  (\<open>float_to_half_full_rtne\<close>) returns \<open>0x3C00\<close>.
\<close>

theorem C2_software_path_rounds_tie_up:
  "float_to_half False fcvt x = float_to_half_fast x
   \<and> float_to_half False fcvt 0x3F801000 = 0x3C01
   \<and> float_to_half_full_rtne 0x3F801000 = 0x3C00
   \<and> valof32 0x3F801000 = 1 + 1 / 2048 \<and> valof16 0x3C00 = 1 \<and> valof16 0x3C01 = 1 + 1 / 1024"
proof -
  have "float_to_half False fcvt x = float_to_half_fast x"
    by (simp add: float_to_half_def float_to_half_reference_def float_to_half_fast_def)
  moreover have "float_to_half False fcvt 0x3F801000 = 0x3C01"
    by (simp add: float_to_half_def float_to_half_reference_def field_defs Let_def)
  moreover have "float_to_half_full_rtne 0x3F801000 = 0x3C00"
    by (simp add: float_to_half_full_rtne_def field_defs Let_def)
  moreover have "valof32 0x3F801000 = 1 + 1 / 2048" "valof16 0x3C00 = 1"
      "valof16 0x3C01 = 1 + 1 / 1024"
    by (simp_all add: valof32_def valof16_def mag32_def field_defs)
  ultimately show ?thesis by blast
qed

text \<open>
  C4. Seven converters copy the sign bit for every input: \<open>float_to_half_full\<close>,
  \<open>float_to_half_full_rtne\<close>, \<open>float_to_half_fast\<close>, \<open>float_to_half_fast2\<close>,
  \<open>float_to_half_fast3\<close>, \<open>float_to_half_fast3_rtne\<close> and \<open>half_to_float\<close>.
  \<open>approx_float_to_half\<close> does not: the positive Infinity \<open>0x7F800000\<close> has sign bit 0
  and its result \<open>0xFC00\<close> has sign bit 1.
\<close>

theorem C4_approx_sign_of_infinity:
  "Sign16 (float_to_half_full f) = Sign32 f
   \<and> Sign16 (float_to_half_full_rtne f) = Sign32 f
   \<and> Sign16 (float_to_half_fast f) = Sign32 f
   \<and> Sign16 (float_to_half_fast2 f) = Sign32 f
   \<and> Sign16 (float_to_half_fast3 f) = Sign32 f
   \<and> Sign16 (float_to_half_fast3_rtne f) = Sign32 f
   \<and> Sign32 (half_to_float h) = Sign16 h
   \<and> Sign32 0x7F800000 = 0
   \<and> approx_float_to_half 0x7F800000 = 0xFC00
   \<and> Sign16 (approx_float_to_half 0x7F800000) = 1"
proof -
  have "Exponent32 0x7F800000 = 255" by (simp add: Exponent32_def)
  from approx_nan_inf[OF this] have a: "approx_float_to_half 0x7F800000 = 0xFC00" by simp
  have "Sign32 0x7F800000 = 0" "Sign16 (approx_float_to_half 0x7F800000) = 1"
    unfolding a by (simp_all add: Sign32_def Sign16_def)
  with a show ?thesis
    by (simp only: sign_full sign_full_rtne sign_fast sign_fast2 sign_fast3 sign_fast3_rtne
        Sign32_half_to_float simp_thms)
qed

text \<open>
  C3, as stated: for every 16-bit pattern \<open>h\<close>, converting \<open>h\<close> with \<open>half_to_float\<close> and
  back with \<open>float_to_half_full_rtne\<close> yields \<open>h\<close>. The signaling half NaN \<open>0x7C01\<close> comes
  back as the quiet NaN \<open>0x7E00\<close>.
\<close>

theorem C3_round_trip_counterexample:
  "float_to_half_full_rtne (half_to_float 0x7C01) = 0x7E00
   \<and> float_to_half_full_rtne (half_to_float 0x7C01) \<noteq> 0x7C01"
  by (simp add: half_to_float_def float_to_half_full_rtne_def field_defs Let_def)

text \<open>
  C3, amended: for every 16-bit pattern \<open>h\<close> that is not a NaN (zeros, subnormals, normal
  values and Infinities of either sign), converting \<open>h\<close> with \<open>half_to_float\<close> and back with
  \<open>float_to_half_full_rtne\<close> yields exactly \<open>h\<close>; for a NaN \<open>h\<close> it yields the quiet NaN
  \<open>0x7E00\<close> with the sign of \<open>h\<close>.
\<close>

theorem C3_round_trip:
  "(\<not> (Exponent16 h = 31 \<and> Mantissa16 h \<noteq> 0) \<longrightarrow>
      float_to_half_full_rtne (half_to_float h) = h)
   \<and> (Exponent16 h = 31 \<and> Mantissa16 h \<noteq> 0 \<longrightarrow>
      unat (float_to_half_full_rtne (half_to_float h)) = Sign16 h * 2 ^ 15 + 0x7E00)"
proof (intro conjI impI)
  assume a: "\<not> (Exponent16 h = 31 \<and> Mantissa16 h \<noteq> 0)"
  have "unat (float_to_half_full_rtne (half_to_float h)) = unat h"
    by (simp only: round_trip_unat[OF a] unat_fields16[of h])
  then show "float_to_half_full_rtne (half_to_float h) = h"
    by (simp only: word_unat_eq_iff)
next
  assume "Exponent16 h = 31 \<and> Mantissa16 h \<noteq> 0"
  then show "unat (float_to_half_full_rtne (half_to_float h)) = Sign16 h * 2 ^ 15 + 0x7E00"
    by (simp add: round_trip_nan)
qed

theorem C3_round_trip_witness:
  "\<not> (Exponent16 0x8001 = 31 \<and> Mantissa16 0x8001 \<noteq> 0)
   \<and> float_to_half_full_rtne (half_to_float 0x8001) = 0x8001
   \<and> (Exponent16 0xFC01 = 31 \<and> Mantissa16 0xFC01 \<noteq> 0)
   \<and> unat (float_to_half_full_rtne (half_to_float 0xFC01)) = 0xFE00"
proof -
  have a: "Exponent16 0x8001 = 0" "Mantissa16 0x8001 = 1"
    and b: "Exponent16 0xFC01 = 31" "Mantissa16 0xFC01 = 1" "Sign16 0xFC01 = 1"
    by (simp_all add: Exponent16_def Mantissa16_def Sign16_def)
  from C3_round_trip[of "0x8001"] C3_round_trip[of "0xFC01"]
  show ?thesis unfolding a b by simp
qed

text \<open>
  C7. \<open>half_to_float\<close> is defined on every 16-bit pattern and never rounds: for every
  finite input (exponent field below 31; zeros of either sign and subnormals included)
  the output is finite and the real value it denotes is exactly the real value the
  input denotes; the sign bit is copied for every input; a half Infinity maps to the
  single-precision Infinity of the same sign.
\<close>

theorem C7_half_to_float_exact:
  "(Exponent16 h \<noteq> 31 \<longrightarrow>
      valof32 (half_to_float h) = valof16 h \<and> Exponent32 (half_to_float h) < 255)
   \<and> (Exponent16 h = 31 \<and> Mantissa16 h = 0 \<longrightarrow>
      Exponent32 (half_to_float h) = 255 \<and> Mantissa32 (half_to_float h) = 0)
   \<and> Sign32 (half_to_float h) = Sign16 h"
proof (intro conjI impI)
  assume "Exponent16 h \<noteq> 31"
  then show "valof32 (half_to_float h) = valof16 h" by (rule valof_half_to_float)
next
  assume "Exponent16 h \<noteq> 31"
  then show "Exponent32 (half_to_float h) < 255" by (rule Exponent32_half_to_float_finite)
next
  assume "Exponent16 h = 31 \<and> Mantissa16 h = 0"
  then show "Exponent32 (half_to_float h) = 255"
    by (simp add: half_to_float_fields_special)
next
  assume "Exponent16 h = 31 \<and> Mantissa16 h = 0"
  then show "Mantissa32 (half_to_float h) = 0"
    by (simp add: half_to_float_fields_special)
next
  show "Sign32 (half_to_float h) = Sign16 h" by (rule Sign32_half_to_float)
qed

theorem C7_half_to_float_exact_witness:
  "Exponent16 0x83FF \<noteq> 31
   \<and> valof32 (half_to_float 0x83FF) = - (1023 / 2 ^ 24)
   \<and> (Exponent16 0xFC00 = 31 \<and> Mantissa16 0xFC00 = 0)
   \<and> Exponent32 (half_to_float 0xFC00) = 255 \<and> Mantissa32 (half_to_float 0xFC00) = 0
   \<and> Sign32 (half_to_float 0xFC00) = 1"
proof -
  have a: "Exponent16 0x83FF = 0" "Mantissa16 0x83FF = 1023" "Sign16 0x83FF = 1"
    and b: "Exponent16 0xFC00 = 31" "Mantissa16 0xFC00 = 0" "Sign16 0xFC00 = 1"
    by (simp_all add: Exponent16_def Mantissa16_def Sign16_def)
  from C7_half_to_float_exact[of "0x83FF"] C7_half_to_float_exact[of "0xFC00"]
  show ?thesis unfolding a b by (simp add: valof16_def a)
qed

end
